theory Spec2Isabelle
  imports Main
begin

section \<open>The resumable entry point emitted by \<open>ExecuteBuilder\<close>\<close>

text \<open>
  \<open>bitcode/helpers/execute-builder.ts\<close> emits the function \<open><prefix>_execute(state, pos,
  endpos)\<close>. Each builder method appends instructions to a basic block and hands back the
  block in which emission continues; the model below gives, method by method, what the
  emitted instructions do to the State Record.

  Positions are pointers into the caller's buffer; they are modelled as offsets
  (\<open>nat\<close>), and a pointer-typed slot of the record as \<open>pos option\<close>, with \<open>None\<close> for the
  null pointer. Error codes are compared with zero only, so they are integers.
\<close>

type_synonym pos = nat

record state_record =
  current :: nat
  error :: int
  reason :: string
  error_pos :: "pos option"
  span_pos :: "nat \<Rightarrow> pos option"
  span_cb :: "nat \<Rightarrow> string"

text \<open>\<open>frontend.SpanField\<close>: the span's index and its candidate callbacks (by name).\<close>

record span_field =
  index :: nat
  callbacks :: "string list"

text \<open>
  One callback invocation as the claims observe it: the callback's name and the byte
  range \<open>[start, end)\<close> it was called with.
\<close>

type_synonym event = "string \<times> pos \<times> pos"

text \<open>
  A user callback is an external function of the state handle and the two positions; it
  returns an error code. The record is mutated only by the emitted code, so a callback
  is a function \<open>name \<Rightarrow> state \<Rightarrow> start \<Rightarrow> end \<Rightarrow> code\<close>.
\<close>

type_synonym callback_env = "string \<Rightarrow> state_record \<Rightarrow> pos \<Rightarrow> pos \<Rightarrow> int"

text \<open>
  The compiled node functions are not part of \<open>execute-builder.ts\<close>: \<open>execute\<close> calls the
  function stored in the record's current-node field with \<open>(state, pos, endpos)\<close> and gets
  back a node pointer (null on the error path). They are a parameter of the model: given
  the node to run, the record and the range, the updated record, the returned node and
  the callbacks invoked on the way.
\<close>

type_synonym dispatch = "nat \<Rightarrow> state_record \<Rightarrow> pos \<Rightarrow> pos \<Rightarrow> nat option \<times> state_record \<times> event list"

text \<open>
  \<open>checkLingeringError\<close>: load the error field, compare with 0; the \<open>error\<close> block returns
  the code, emission continues in \<open>no_error\<close>.
\<close>

definition checkLingeringError :: "state_record \<Rightarrow> int + unit" where
  "checkLingeringError s = (let code = error s in if code = 0 then Inr () else Inl code)"

text \<open>
  \<open>restartSpans\<close>: for each span in order, load its start slot; when it is not null
  (\<open>span_restart_i\<close>) store the \<open>pos\<close> argument into it; join in \<open>span_empty_i\<close>.
\<close>

fun restartSpans :: "span_field list \<Rightarrow> pos \<Rightarrow> state_record \<Rightarrow> state_record" where
  "restartSpans [] p s = s"
| "restartSpans (span # spans) p s =
     (case span_pos s (index span) of
        None \<Rightarrow> restartSpans spans p s
      | Some start \<Rightarrow> restartSpans spans p (s\<lparr>span_pos := (span_pos s)(index span := Some p)\<rparr>))"

text \<open>\<open>buildError\<close>: store the code into the error field and \<open>endpos\<close> into the error position.\<close>

definition buildError :: "int \<Rightarrow> pos \<Rightarrow> state_record \<Rightarrow> state_record" where
  "buildError code endpos s = s\<lparr>error := code, error_pos := Some endpos\<rparr>"

text \<open>
  The callback a span's finalize call goes to: the single candidate when there is exactly
  one, otherwise the function pointer loaded from the span's callback slot.
\<close>

definition span_callback :: "span_field \<Rightarrow> state_record \<Rightarrow> string" where
  "span_callback span s =
     (if length (callbacks span) = 1 then callbacks span ! 0 else span_cb s (index span))"

text \<open>
  \<open>executeSpans\<close>: for each span in order, load its start slot; when it is null continue in
  \<open>span_empty_i\<close>; otherwise (\<open>span_present_i\<close>) call the callback with \<open>(state, start,
  endpos)\<close>; a nonzero result is stored by \<open>buildError\<close> and returned (\<open>span_error_i\<close>), a
  zero result jumps to \<open>span_empty_i\<close>. No instruction of the method stores to a span slot.
  The block left after the last span is returned to \<open>build\<close>, which returns 0 from it.
\<close>

fun executeSpans :: "callback_env \<Rightarrow> span_field list \<Rightarrow> pos \<Rightarrow> state_record
    \<Rightarrow> int \<times> state_record \<times> event list" where
  "executeSpans cb [] endpos s = (0, s, [])"
| "executeSpans cb (span # spans) endpos s =
     (case span_pos s (index span) of
        None \<Rightarrow> executeSpans cb spans endpos s
      | Some start \<Rightarrow>
          (let name = span_callback span s;
               call = cb name s start endpos
           in if call = 0
              then (case executeSpans cb spans endpos s of
                      (res, s', evs) \<Rightarrow> (res, s', (name, start, endpos) # evs))
              else (call, buildError call endpos s, [(name, start, endpos)])))"

text \<open>
  \<open>build\<close>: the body of \<open>execute\<close>. After the lingering-error check and the span restart,
  the node in the current field is called. A non-null result is stored back into the
  current field (\<open>success\<close>), the spans are finalized and 0 is returned; a null result
  returns the error field (\<open>error\<close>). The result is the returned code, the record after
  the call and the callbacks invoked, in order.
\<close>

definition execute :: "dispatch \<Rightarrow> callback_env \<Rightarrow> span_field list \<Rightarrow> state_record \<Rightarrow> pos \<Rightarrow> pos
    \<Rightarrow> int \<times> state_record \<times> event list" where
  "execute D cb spans s p endpos =
     (case checkLingeringError s of
        Inl code \<Rightarrow> (code, s, [])
      | Inr _ \<Rightarrow>
          (let s1 = restartSpans spans p s in
           case D (current s1) s1 p endpos of
             (None, s2, evs) \<Rightarrow> (error s2, s2, evs)
           | (Some node, s2, evs) \<Rightarrow>
               (case executeSpans cb spans endpos (s2\<lparr>current := node\<rparr>) of
                  (res, s3, evs') \<Rightarrow> (res, s3, evs @ evs'))))"

text \<open>
  Successive calls on one record: each call gets the record the previous one left. The
  result collects the returned codes, the final record and all callbacks in order.
\<close>

fun execute_calls :: "dispatch \<Rightarrow> callback_env \<Rightarrow> span_field list \<Rightarrow> state_record
    \<Rightarrow> (pos \<times> pos) list \<Rightarrow> int list \<times> state_record \<times> event list" where
  "execute_calls D cb spans s [] = ([], s, [])"
| "execute_calls D cb spans s ((p, endpos) # calls) =
     (case execute D cb spans s p endpos of
        (res, s1, evs) \<Rightarrow>
          (case execute_calls D cb spans s1 calls of
             (ress, s2, evs') \<Rightarrow> (res # ress, s2, evs @ evs')))"

text \<open>
  What the finalize step is expected to do, span by span: the spans whose start slot is
  active, the event and the code of one finalize call, the first nonzero code of a list,
  and the elements of a list up to and including the first one that satisfies a test.
\<close>

definition active_spans :: "span_field list \<Rightarrow> state_record \<Rightarrow> span_field list" where
  "active_spans spans s = filter (\<lambda>span. span_pos s (index span) \<noteq> None) spans"

definition finalize_event :: "state_record \<Rightarrow> pos \<Rightarrow> span_field \<Rightarrow> event" where
  "finalize_event s endpos span = (span_callback span s, the (span_pos s (index span)), endpos)"

definition finalize_code :: "callback_env \<Rightarrow> state_record \<Rightarrow> pos \<Rightarrow> span_field \<Rightarrow> int" where
  "finalize_code cb s endpos span =
     cb (span_callback span s) s (the (span_pos s (index span))) endpos"

fun first_nonzero :: "int list \<Rightarrow> int" where
  "first_nonzero [] = 0"
| "first_nonzero (c # cs) = (if c \<noteq> 0 then c else first_nonzero cs)"

fun take_through :: "('a \<Rightarrow> bool) \<Rightarrow> 'a list \<Rightarrow> 'a list" where
  "take_through P [] = []"
| "take_through P (x # xs) = (if P x then [x] else x # take_through P xs)"




subsection \<open>The compiled automaton\<close>















subsection \<open>Example records, spans and node functions\<close>

definition erred_record :: state_record where
  "erred_record = \<lparr>current = 3, error = 7, reason = ''bad'', error_pos = Some 4,
     span_pos = (\<lambda>_. None)(0 := Some 2), span_cb = (\<lambda>_. ''on_span'')\<rparr>"

definition fresh_record :: state_record where
  "fresh_record = \<lparr>current = 0, error = 0, reason = [], error_pos = None,
     span_pos = (\<lambda>_. None), span_cb = (\<lambda>_. ''on_span'')\<rparr>"

definition open_record :: state_record where
  "open_record = fresh_record\<lparr>span_pos := (\<lambda>_. None)(0 := Some 2)\<rparr>"

definition one_span :: "span_field list" where
  "one_span = [\<lparr>index = 0, callbacks = [''on_span'']\<rparr>]"

definition two_spans :: "span_field list" where
  "two_spans = [\<lparr>index = 0, callbacks = [''on_span'']\<rparr>, \<lparr>index = 1, callbacks = [''on_other'']\<rparr>]"

definition cb_ok :: callback_env where
  "cb_ok name s start endpos = 0"

definition cb_fail :: callback_env where
  "cb_fail name s start endpos = (if name = ''on_span'' then 9 else 0)"

text \<open>
  Modelled from the spec: the compiled node functions are not among the source files.
  \<open>byte_loop\<close> stands for a node that invokes a callback on every byte and loops on
  itself (Invoke Callback, all calls returning 0); \<open>span_loop\<close> for a span "opened at one
  node": node 0 stores the position of the first byte into span slot 0 and continues in
  node 1, which consumes the rest of the input; \<open>error_node\<close> for an Error node, which
  "persists an explicit error code/reason/offset" and returns null.
\<close>

definition byte_loop :: dispatch where
  "byte_loop node s p endpos = (Some node, s, map (\<lambda>i. (''on_byte'', i, Suc i)) [p..<endpos])"

definition span_loop :: dispatch where
  "span_loop node s p endpos =
     (if node = 0 \<and> p < endpos
      then (Some 1, s\<lparr>span_pos := (span_pos s)(0 := Some p)\<rparr>, [])
      else (Some node, s, []))"

definition error_node :: dispatch where
  "error_node node s p endpos = (None, s\<lparr>error := 5, reason := ''stop'', error_pos := Some p\<rparr>, [])"

subsection \<open>The Pause node\<close>

text \<open>
  \<open>bitcode/node/pause.ts\<close>. A \<open>frontend.node.Pause\<close> carries an error code, a reason and
  an otherwise edge; \<open>otherwise\<close> is optional in the type and dereferenced unchecked
  (\<open>this.ref.otherwise!.node\<close>), which throws a TypeError when it is absent.
\<close>

datatype build_error = AssertionError | TypeError

record pause_ref =
  pause_code :: int
  pause_reason :: string
  pause_otherwise :: "nat option"

text \<open>
  Modelled from the spec: \<open>storeError\<close> is inherited from the Error node, whose file is not
  among the sources. An Error node "persists an explicit error code/reason/offset into the
  State Record": the node's code, its reason, and the position the node was reached at.
\<close>

definition storeError :: "pause_ref \<Rightarrow> pos \<Rightarrow> state_record \<Rightarrow> state_record" where
  "storeError ref p s = s\<lparr>error := pause_code ref, reason := pause_reason ref, error_pos := Some p\<rparr>"

text \<open>
  The instructions \<open>Pause.doBuild\<close> emits into the node's block: the stores of
  \<open>storeError\<close>, the store of the compiled otherwise node into the current field, and the
  return of a null node pointer. No callback is called and \<open>endpos\<close> is not read.
\<close>

definition pause_body :: "pause_ref \<Rightarrow> nat \<Rightarrow> state_record \<Rightarrow> pos \<Rightarrow> pos
    \<Rightarrow> nat option \<times> state_record \<times> event list" where
  "pause_body ref target s p endpos = (None, (storeError ref p s)\<lparr>current := target\<rparr>, [])"

definition Pause_doBuild :: "pause_ref \<Rightarrow> build_error + (state_record \<Rightarrow> pos \<Rightarrow> pos
    \<Rightarrow> nat option \<times> state_record \<times> event list)" where
  "Pause_doBuild ref =
     (case pause_otherwise ref of
        None \<Rightarrow> Inl TypeError
      | Some target \<Rightarrow> Inr (pause_body ref target))"

definition sample_pause :: pause_ref where
  "sample_pause = \<lparr>pause_code = 21, pause_reason = ''paused'', pause_otherwise = Some 4\<rparr>"

section \<open>Lingering errors\<close>

lemma execute_lingering: "error s \<noteq> 0 \<Longrightarrow> execute D cb spans s p endpos = (error s, s, [])"
  by (simp add: execute_def checkLingeringError_def)

lemma execute_calls_lingering:
  "error s \<noteq> 0 \<Longrightarrow> execute_calls D cb spans s calls = (map (\<lambda>_. error s) calls, s, [])"
  by (induction calls) (auto simp: execute_lingering)

text \<open>
  C2. A record whose error field is nonzero at entry: \<open>execute\<close> returns that code, invokes
  no callback (the event list is empty), does not run the dispatch (the result is the same
  for every dispatch function and range) and leaves the record as it was; the same holds
  for every later call on the record, whatever ranges the calls are given.
\<close>

theorem execute_error_sticky:
  assumes "error s \<noteq> 0"
  shows "execute D cb spans s p endpos = (error s, s, [])
       \<and> execute_calls D cb spans s calls = (map (\<lambda>_. error s) calls, s, [])"
  using assms by (simp add: execute_lingering execute_calls_lingering)

theorem execute_error_sticky_witness:
  "error erred_record \<noteq> 0
   \<and> execute byte_loop cb_ok one_span erred_record 10 20 = (7, erred_record, [])
   \<and> execute_calls byte_loop cb_ok one_span erred_record [(10, 20), (20, 25)]
       = ([7, 7], erred_record, [])"
proof -
  have e: "error erred_record = 7" by (simp add: erred_record_def)
  then have h: "error erred_record \<noteq> 0" by simp
  show ?thesis
    using execute_error_sticky [OF h, of byte_loop cb_ok one_span 10 20 "[(10, 20), (20, 25)]"] e
    by (simp del: execute_calls.simps)
qed

section \<open>Span restart\<close>

lemma restartSpans_fields:
  "current (restartSpans spans p s) = current s \<and> error (restartSpans spans p s) = error s
   \<and> reason (restartSpans spans p s) = reason s \<and> error_pos (restartSpans spans p s) = error_pos s
   \<and> span_cb (restartSpans spans p s) = span_cb s"
  by (induction spans arbitrary: s) (auto split: option.splits)

lemma restartSpans_span_pos:
  "span_pos (restartSpans spans p s) i =
     (if i \<in> index ` set spans \<and> span_pos s i \<noteq> None then Some p else span_pos s i)"
  by (induction spans arbitrary: s) (auto split: option.splits)

text \<open>
  C3. After the span restart that opens every call of \<open>execute\<close> past the lingering-error
  check, the start slot of every span that was active holds the call's starting position,
  the start slot of every inactive span is still inactive, and no other field of the
  record has changed; the record so restarted is the one the dispatch receives.
\<close>

theorem restartSpans_rebases_active:
  "(\<forall>span \<in> set spans.
      span_pos (restartSpans spans p s) (index span) =
        (if span_pos s (index span) = None then None else Some p))
   \<and> (\<forall>i. i \<notin> index ` set spans \<longrightarrow> span_pos (restartSpans spans p s) i = span_pos s i)
   \<and> restartSpans spans p s = s\<lparr>span_pos := span_pos (restartSpans spans p s)\<rparr>
   \<and> (error s = 0 \<longrightarrow>
        execute D cb spans s p endpos =
          (case D (current s) (restartSpans spans p s) p endpos of
             (None, s2, evs) \<Rightarrow> (error s2, s2, evs)
           | (Some node, s2, evs) \<Rightarrow>
               (case executeSpans cb spans endpos (s2\<lparr>current := node\<rparr>) of
                  (res, s3, evs') \<Rightarrow> (res, s3, evs @ evs'))))"
proof -
  have a: "\<forall>span \<in> set spans.
      span_pos (restartSpans spans p s) (index span) =
        (if span_pos s (index span) = None then None else Some p)"
    by (simp add: restartSpans_span_pos)
  have b: "\<forall>i. i \<notin> index ` set spans \<longrightarrow> span_pos (restartSpans spans p s) i = span_pos s i"
    by (simp add: restartSpans_span_pos)
  have c: "restartSpans spans p s = s\<lparr>span_pos := span_pos (restartSpans spans p s)\<rparr>"
    by (rule state_record.equality) (simp_all add: restartSpans_fields)
  have d: "error s = 0 \<longrightarrow>
        execute D cb spans s p endpos =
          (case D (current s) (restartSpans spans p s) p endpos of
             (None, s2, evs) \<Rightarrow> (error s2, s2, evs)
           | (Some node, s2, evs) \<Rightarrow>
               (case executeSpans cb spans endpos (s2\<lparr>current := node\<rparr>) of
                  (res, s3, evs') \<Rightarrow> (res, s3, evs @ evs')))"
    by (simp add: execute_def checkLingeringError_def restartSpans_fields)
  from a b c d show ?thesis by blast
qed

theorem restartSpans_rebases_active_witness:
  "span_pos (restartSpans two_spans 10 open_record) 0 = Some 10
   \<and> span_pos (restartSpans two_spans 10 open_record) 1 = None
   \<and> span_pos (restartSpans two_spans 10 open_record) 2 = None
   \<and> execute byte_loop cb_ok two_spans open_record 10 12
       = (0, open_record\<lparr>span_pos := (\<lambda>_. None)(0 := Some 10)\<rparr>,
          [(''on_byte'', 10, 11), (''on_byte'', 11, 12), (''on_span'', 10, 12)])"
proof -
  note t = restartSpans_rebases_active [of two_spans 10 open_record byte_loop cb_ok 12]
  have m: "\<lparr>index = 0, callbacks = [''on_span'']\<rparr> \<in> set two_spans"
    "\<lparr>index = 1, callbacks = [''on_other'']\<rparr> \<in> set two_spans"
    "2 \<notin> index ` set two_spans"
    by (simp_all add: two_spans_def)
  have o: "span_pos open_record 0 = Some 2" "span_pos open_record 1 = None"
    "span_pos open_record 2 = None" "error open_record = 0" "current open_record = 0"
    by (simp_all add: open_record_def fresh_record_def)
  from t m(1) o(1) have a: "span_pos (restartSpans two_spans 10 open_record) 0 = Some 10"
    by fastforce
  from t m(2) o(2) have b: "span_pos (restartSpans two_spans 10 open_record) 1 = None"
    by fastforce
  from t m(3) o(3) have c: "span_pos (restartSpans two_spans 10 open_record) 2 = None"
    by fastforce
  have r: "restartSpans two_spans 10 open_record = open_record\<lparr>span_pos := (\<lambda>_. None)(0 := Some 10)\<rparr>"
    by (simp add: two_spans_def open_record_def fresh_record_def)
  have u: "[10..<12] = [10, Suc 10]" by (simp add: upt_rec)
  from t o(4) have "execute byte_loop cb_ok two_spans open_record 10 12 =
          (case byte_loop (current open_record) (restartSpans two_spans 10 open_record) 10 12 of
             (None, s2, evs) \<Rightarrow> (error s2, s2, evs)
           | (Some node, s2, evs) \<Rightarrow>
               (case executeSpans cb_ok two_spans 12 (s2\<lparr>current := node\<rparr>) of
                  (res, s3, evs') \<Rightarrow> (res, s3, evs @ evs')))"
    by blast
  then have d: "execute byte_loop cb_ok two_spans open_record 10 12
       = (0, open_record\<lparr>span_pos := (\<lambda>_. None)(0 := Some 10)\<rparr>,
          [(''on_byte'', 10, 11), (''on_byte'', 11, 12), (''on_span'', 10, 12)])"
    by (simp add: r o byte_loop_def u two_spans_def open_record_def fresh_record_def
        cb_ok_def span_callback_def)
  from a b c d show ?thesis by blast
qed

section \<open>Finalize on success\<close>

lemma executeSpans_code:
  "fst (executeSpans cb spans endpos s)
     = first_nonzero (map (finalize_code cb s endpos) (active_spans spans s))"
  by (induction spans)
     (auto simp: active_spans_def finalize_code_def Let_def split: option.splits prod.splits)

lemma executeSpans_state:
  "fst (snd (executeSpans cb spans endpos s))
     = (if fst (executeSpans cb spans endpos s) = 0 then s
        else buildError (fst (executeSpans cb spans endpos s)) endpos s)"
  by (induction spans) (auto simp: Let_def split: option.splits prod.splits)

lemma executeSpans_events:
  "snd (snd (executeSpans cb spans endpos s))
     = map (finalize_event s endpos)
         (take_through (\<lambda>span. finalize_code cb s endpos span \<noteq> 0) (active_spans spans s))"
  by (induction spans)
     (auto simp: active_spans_def finalize_code_def finalize_event_def Let_def
           split: option.splits prod.splits)

lemma span_pos_buildError: "span_pos (buildError code endpos s) = span_pos s"
  by (simp add: buildError_def)

lemma executeSpans_span_pos: "span_pos (fst (snd (executeSpans cb spans endpos s))) = span_pos s"
  by (simp add: executeSpans_state span_pos_buildError)

lemma take_through_none: "\<forall>x \<in> set xs. \<not> P x \<Longrightarrow> take_through P xs = xs"
  by (induction xs) auto

lemma first_nonzero_zero: "\<forall>c \<in> set cs. c = 0 \<Longrightarrow> first_nonzero cs = 0"
  by (induction cs) auto

text \<open>
  C4, as the code has it. The finalize step visits the spans in order; each span whose
  start slot is active has its resolved callback invoked with the span's start and the
  call's end position, up to and including the first callback that returns nonzero. The
  step stores to no span slot: every start slot, finalized or not, holds afterwards what
  it held before. When every finalize callback returns 0, every active span is finalized
  and the record is left exactly as it was.
\<close>

theorem executeSpans_finalizes_keeps_slots:
  "snd (snd (executeSpans cb spans endpos s))
     = map (finalize_event s endpos)
         (take_through (\<lambda>span. finalize_code cb s endpos span \<noteq> 0) (active_spans spans s))
   \<and> span_pos (fst (snd (executeSpans cb spans endpos s))) = span_pos s
   \<and> ((\<forall>span \<in> set (active_spans spans s). finalize_code cb s endpos span = 0) \<longrightarrow>
        executeSpans cb spans endpos s = (0, s, map (finalize_event s endpos) (active_spans spans s)))"
proof -
  have a: "snd (snd (executeSpans cb spans endpos s))
     = map (finalize_event s endpos)
         (take_through (\<lambda>span. finalize_code cb s endpos span \<noteq> 0) (active_spans spans s))"
    by (rule executeSpans_events)
  have b: "span_pos (fst (snd (executeSpans cb spans endpos s))) = span_pos s"
    by (rule executeSpans_span_pos)
  have c: "executeSpans cb spans endpos s = (0, s, map (finalize_event s endpos) (active_spans spans s))"
    if h: "\<forall>span \<in> set (active_spans spans s). finalize_code cb s endpos span = 0"
  proof -
    from h have z: "fst (executeSpans cb spans endpos s) = 0"
      by (simp add: executeSpans_code first_nonzero_zero)
    from h have t: "take_through (\<lambda>span. finalize_code cb s endpos span \<noteq> 0) (active_spans spans s)
        = active_spans spans s"
      by (simp add: take_through_none)
    from z have st: "fst (snd (executeSpans cb spans endpos s)) = s"
      by (simp add: executeSpans_state)
    from a t have ev: "snd (snd (executeSpans cb spans endpos s))
        = map (finalize_event s endpos) (active_spans spans s)"
      by simp
    from z st ev show ?thesis by (metis prod.collapse)
  qed
  from a b c show ?thesis by blast
qed

definition both_open :: state_record where
  "both_open = fresh_record\<lparr>span_pos := (\<lambda>_. None)(0 := Some 2, 1 := Some 5)\<rparr>"

theorem executeSpans_finalizes_keeps_slots_witness:
  "executeSpans cb_ok two_spans 12 both_open
     = (0, both_open, [(''on_span'', 2, 12), (''on_other'', 5, 12)])
   \<and> span_pos (fst (snd (executeSpans cb_ok two_spans 12 both_open))) 0 = Some 2
   \<and> span_pos (fst (snd (executeSpans cb_fail two_spans 12 both_open))) 0 = Some 2
   \<and> snd (snd (executeSpans cb_fail two_spans 12 both_open)) = [(''on_span'', 2, 12)]"
proof -
  note t = executeSpans_finalizes_keeps_slots [of cb_ok two_spans 12 both_open]
  note f = executeSpans_finalizes_keeps_slots [of cb_fail two_spans 12 both_open]
  have act: "active_spans two_spans both_open = two_spans"
    by (simp add: active_spans_def two_spans_def both_open_def)
  have z: "\<forall>span \<in> set (active_spans two_spans both_open). finalize_code cb_ok both_open 12 span = 0"
    by (simp add: finalize_code_def cb_ok_def)
  have ev: "map (finalize_event both_open 12) two_spans = [(''on_span'', 2, 12), (''on_other'', 5, 12)]"
    by (simp add: finalize_event_def two_spans_def both_open_def span_callback_def)
  from t z have a: "executeSpans cb_ok two_spans 12 both_open
     = (0, both_open, [(''on_span'', 2, 12), (''on_other'', 5, 12)])"
    unfolding act ev by blast
  have p0: "span_pos both_open 0 = Some 2" by (simp add: both_open_def)
  from t p0 have b: "span_pos (fst (snd (executeSpans cb_ok two_spans 12 both_open))) 0 = Some 2"
    by simp
  from f p0 have c: "span_pos (fst (snd (executeSpans cb_fail two_spans 12 both_open))) 0 = Some 2"
    by simp
  have tt: "take_through (\<lambda>span. finalize_code cb_fail both_open 12 span \<noteq> 0) two_spans
      = [\<lparr>index = 0, callbacks = [''on_span'']\<rparr>]"
    by (simp add: two_spans_def finalize_code_def cb_fail_def span_callback_def)
  from f have d: "snd (snd (executeSpans cb_fail two_spans 12 both_open)) = [(''on_span'', 2, 12)]"
    unfolding act tt by (simp add: finalize_event_def both_open_def span_callback_def)
  from a b c d show ?thesis by blast
qed

text \<open>
  The claim as written fails: a span whose finalize callback has fired (and returned 0)
  is still active afterwards, in \<open>executeSpans\<close> alone and at the end of a whole call of
  \<open>execute\<close>.
\<close>

theorem executeSpans_clears_slot_counterexample:
  "snd (snd (executeSpans cb_ok one_span 12 open_record)) = [(''on_span'', 2, 12)]
   \<and> span_pos (fst (snd (executeSpans cb_ok one_span 12 open_record))) 0 \<noteq> None
   \<and> snd (snd (execute span_loop cb_ok one_span fresh_record 0 2)) = [(''on_span'', 0, 2)]
   \<and> span_pos (fst (snd (execute span_loop cb_ok one_span fresh_record 0 2))) 0 \<noteq> None"
  by (simp add: execute_def checkLingeringError_def span_loop_def one_span_def open_record_def
      fresh_record_def cb_ok_def span_callback_def)

section \<open>The result of a call\<close>

text \<open>
  C5. Past the lingering-error check, with the dispatch's outcome given: when the dispatch
  took the error path (it returned null after persisting its error), \<open>execute\<close> returns
  the record's error field and the only callbacks of the call are the dispatch's own, so
  no finalize callback runs. Otherwise the returned code is the first nonzero code among
  the finalize callbacks of the active spans, in order; when there is one, the record's
  error field holds it and the error position is the call's end position; when there is
  none, the call returns 0 and the record is the one the dispatch left, with the resume
  node stored.
\<close>

theorem execute_result_priority:
  assumes "error s = 0"
    and "D (current s) (restartSpans spans p s) p endpos = (r, s2, evs)"
  shows "(r = None \<longrightarrow> execute D cb spans s p endpos = (error s2, s2, evs))
   \<and> (\<forall>node. r = Some node \<longrightarrow>
        (let s3 = s2\<lparr>current := node\<rparr>;
             code = first_nonzero (map (finalize_code cb s3 endpos) (active_spans spans s3));
             res = execute D cb spans s p endpos
         in fst res = code
            \<and> (code \<noteq> 0 \<longrightarrow> fst (snd res) = s3\<lparr>error := code, error_pos := Some endpos\<rparr>)
            \<and> (code = 0 \<longrightarrow> fst (snd res) = s3)
            \<and> snd (snd res) = evs @ map (finalize_event s3 endpos)
                 (take_through (\<lambda>span. finalize_code cb s3 endpos span \<noteq> 0)
                    (active_spans spans s3))))"
proof -
  have ex: "execute D cb spans s p endpos =
      (case r of None \<Rightarrow> (error s2, s2, evs)
       | Some node \<Rightarrow> (case executeSpans cb spans endpos (s2\<lparr>current := node\<rparr>) of
                         (res, s3, evs') \<Rightarrow> (res, s3, evs @ evs')))"
    using assms
    by (simp add: execute_def checkLingeringError_def restartSpans_fields split: option.splits)
  have a: "r = None \<longrightarrow> execute D cb spans s p endpos = (error s2, s2, evs)"
    by (simp add: ex)
  have b: "fst (execute D cb spans s p endpos)
        = first_nonzero (map (finalize_code cb (s2\<lparr>current := node\<rparr>) endpos)
            (active_spans spans (s2\<lparr>current := node\<rparr>)))
      \<and> (first_nonzero (map (finalize_code cb (s2\<lparr>current := node\<rparr>) endpos)
            (active_spans spans (s2\<lparr>current := node\<rparr>))) \<noteq> 0 \<longrightarrow>
          fst (snd (execute D cb spans s p endpos))
            = s2\<lparr>current := node, error := first_nonzero (map (finalize_code cb (s2\<lparr>current := node\<rparr>) endpos)
                (active_spans spans (s2\<lparr>current := node\<rparr>))), error_pos := Some endpos\<rparr>)
      \<and> (first_nonzero (map (finalize_code cb (s2\<lparr>current := node\<rparr>) endpos)
            (active_spans spans (s2\<lparr>current := node\<rparr>))) = 0 \<longrightarrow>
          fst (snd (execute D cb spans s p endpos)) = s2\<lparr>current := node\<rparr>)
      \<and> snd (snd (execute D cb spans s p endpos))
          = evs @ map (finalize_event (s2\<lparr>current := node\<rparr>) endpos)
                 (take_through (\<lambda>span. finalize_code cb (s2\<lparr>current := node\<rparr>) endpos span \<noteq> 0)
                    (active_spans spans (s2\<lparr>current := node\<rparr>)))"
    if rn: "r = Some node" for node
  proof -
    obtain c s3 evs' where e: "executeSpans cb spans endpos (s2\<lparr>current := node\<rparr>) = (c, s3, evs')"
      by (metis prod_cases3)
    from rn e have x: "execute D cb spans s p endpos = (c, s3, evs @ evs')"
      by (simp add: ex)
    from e have p1: "fst (executeSpans cb spans endpos (s2\<lparr>current := node\<rparr>)) = c"
      and p2: "fst (snd (executeSpans cb spans endpos (s2\<lparr>current := node\<rparr>))) = s3"
      and p3: "snd (snd (executeSpans cb spans endpos (s2\<lparr>current := node\<rparr>))) = evs'"
      by simp_all
    from p1 executeSpans_code [of cb spans endpos "s2\<lparr>current := node\<rparr>"]
    have c: "c = first_nonzero (map (finalize_code cb (s2\<lparr>current := node\<rparr>) endpos)
            (active_spans spans (s2\<lparr>current := node\<rparr>)))"
      by simp
    from executeSpans_state [of cb spans endpos "s2\<lparr>current := node\<rparr>"]
    have st: "s3 = (if c = 0 then s2\<lparr>current := node\<rparr>
                    else s2\<lparr>current := node, error := c, error_pos := Some endpos\<rparr>)"
      unfolding p1 p2 by (simp add: buildError_def)
    from p3 executeSpans_events [of cb spans endpos "s2\<lparr>current := node\<rparr>"]
    have ev: "evs' = map (finalize_event (s2\<lparr>current := node\<rparr>) endpos)
                 (take_through (\<lambda>span. finalize_code cb (s2\<lparr>current := node\<rparr>) endpos span \<noteq> 0)
                    (active_spans spans (s2\<lparr>current := node\<rparr>)))"
      by simp
    from st have st1: "c \<noteq> 0 \<longrightarrow> s3 = s2\<lparr>current := node, error := c, error_pos := Some endpos\<rparr>"
      and st0: "c = 0 \<longrightarrow> s3 = s2\<lparr>current := node\<rparr>"
      by simp_all
    show ?thesis
      unfolding x fst_conv snd_conv using st1 st0 ev unfolding c by blast
  qed
  from a b show ?thesis by (simp add: Let_def)
qed

theorem execute_result_priority_witness:
  "error open_record = 0
   \<and> execute error_node cb_fail one_span open_record 10 12
       = (5, open_record\<lparr>error := 5, reason := ''stop'', error_pos := Some 10,
                           span_pos := (\<lambda>_. None)(0 := Some 10)\<rparr>, [])
   \<and> fst (execute byte_loop cb_fail one_span open_record 10 11) = 9
   \<and> error (fst (snd (execute byte_loop cb_fail one_span open_record 10 11))) = 9
   \<and> error_pos (fst (snd (execute byte_loop cb_fail one_span open_record 10 11))) = Some 11
   \<and> snd (snd (execute byte_loop cb_fail one_span open_record 10 11))
       = [(''on_byte'', 10, 11), (''on_span'', 10, 11)]"
proof -
  have e0: "error open_record = 0" and c0: "current open_record = 0"
    by (simp_all add: open_record_def fresh_record_def)
  have r: "restartSpans one_span 10 open_record = open_record\<lparr>span_pos := (\<lambda>_. None)(0 := Some 10)\<rparr>"
    by (simp add: one_span_def open_record_def fresh_record_def)
  have d1: "error_node (current open_record) (restartSpans one_span 10 open_record) 10 12
      = (None, open_record\<lparr>error := 5, reason := ''stop'', error_pos := Some 10,
                           span_pos := (\<lambda>_. None)(0 := Some 10)\<rparr>, [])"
    unfolding r by (simp add: error_node_def open_record_def fresh_record_def)
  from execute_result_priority [where D = error_node and s = open_record and spans = one_span
      and p = 10 and endpos = 12 and cb = cb_fail, OF e0 d1]
  have a: "execute error_node cb_fail one_span open_record 10 12
       = (5, open_record\<lparr>error := 5, reason := ''stop'', error_pos := Some 10,
                           span_pos := (\<lambda>_. None)(0 := Some 10)\<rparr>, [])"
    by (simp add: open_record_def fresh_record_def)
  have u: "[10..<11] = [10]" by (simp add: upt_rec)
  have d2: "byte_loop (current open_record) (restartSpans one_span 10 open_record) 10 11
      = (Some 0, open_record\<lparr>span_pos := (\<lambda>_. None)(0 := Some 10)\<rparr>, [(''on_byte'', 10, 11)])"
    unfolding r c0 by (simp add: byte_loop_def u)
  have act: "active_spans one_span (open_record\<lparr>span_pos := (\<lambda>_. None)(0 := Some 10), current := 0\<rparr>)
      = one_span"
    by (simp add: active_spans_def one_span_def)
  have fc: "map (finalize_code cb_fail (open_record\<lparr>span_pos := (\<lambda>_. None)(0 := Some 10), current := 0\<rparr>) 11)
      one_span = [9]"
    by (simp add: finalize_code_def cb_fail_def one_span_def span_callback_def)
  have tt: "take_through (\<lambda>span. finalize_code cb_fail
        (open_record\<lparr>span_pos := (\<lambda>_. None)(0 := Some 10), current := 0\<rparr>) 11 span \<noteq> 0) one_span
      = one_span"
    by (simp add: finalize_code_def cb_fail_def one_span_def span_callback_def)
  have fe: "map (finalize_event (open_record\<lparr>span_pos := (\<lambda>_. None)(0 := Some 10), current := 0\<rparr>) 11)
      one_span = [(''on_span'', 10, 11)]"
    by (simp add: finalize_event_def one_span_def span_callback_def)
  from execute_result_priority [where D = byte_loop and s = open_record and spans = one_span
      and p = 10 and endpos = 11 and cb = cb_fail, OF e0 d2]
  have "let s3 = open_record\<lparr>span_pos := (\<lambda>_. None)(0 := Some 10), current := 0\<rparr>;
             code = first_nonzero (map (finalize_code cb_fail s3 11) (active_spans one_span s3));
             res = execute byte_loop cb_fail one_span open_record 10 11
         in fst res = code
            \<and> (code \<noteq> 0 \<longrightarrow> fst (snd res) = s3\<lparr>error := code, error_pos := Some 11\<rparr>)
            \<and> (code = 0 \<longrightarrow> fst (snd res) = s3)
            \<and> snd (snd res) = [(''on_byte'', 10, 11)] @ map (finalize_event s3 11)
                 (take_through (\<lambda>span. finalize_code cb_fail s3 11 span \<noteq> 0)
                    (active_spans one_span s3))"
    by blast
  from this [unfolded Let_def act fc tt fe]
  have b: "fst (execute byte_loop cb_fail one_span open_record 10 11) = 9
     \<and> fst (snd (execute byte_loop cb_fail one_span open_record 10 11))
         = open_record\<lparr>span_pos := (\<lambda>_. None)(0 := Some 10), current := 0, error := 9,
                        error_pos := Some 11\<rparr>
     \<and> snd (snd (execute byte_loop cb_fail one_span open_record 10 11))
         = [(''on_byte'', 10, 11), (''on_span'', 10, 11)]"
    by simp
  from e0 a b show ?thesis by simp
qed

section \<open>Feeding the input in chunks\<close>








lemma active_spans_cong: "span_pos s = span_pos s' \<Longrightarrow> active_spans spans s = active_spans spans s'"
  by (simp add: active_spans_def)




















section \<open>The Pause node\<close>

text \<open>
  C6, as the code has it. Compiling a Pause node that has an otherwise edge produces code
  that first persists the node's error code, reason and position into the record's error
  fields, then stores the resume target (the otherwise node) into the current-node field,
  and returns null, the non-success result; it calls no callback and its outcome does not
  depend on the end of the input. A call of \<open>execute\<close> that reaches the node returns the
  node's code and leaves it in the record's error field.
\<close>

theorem Pause_persists_error_and_target:
  assumes "pause_otherwise ref = Some target"
  shows "Pause_doBuild ref = Inr (pause_body ref target)
   \<and> pause_body ref target s p endpos
       = (None, s\<lparr>error := pause_code ref, reason := pause_reason ref, error_pos := Some p,
                   current := target\<rparr>, [])
   \<and> pause_body ref target s p endpos = pause_body ref target s p endpos'
   \<and> (error s = 0 \<longrightarrow>
        fst (execute (\<lambda>node. pause_body ref target) cb spans s p endpos) = pause_code ref
        \<and> error (fst (snd (execute (\<lambda>node. pause_body ref target) cb spans s p endpos)))
            = pause_code ref
        \<and> current (fst (snd (execute (\<lambda>node. pause_body ref target) cb spans s p endpos)))
            = target
        \<and> snd (snd (execute (\<lambda>node. pause_body ref target) cb spans s p endpos)) = [])"
  using assms
  by (simp add: Pause_doBuild_def pause_body_def storeError_def execute_def checkLingeringError_def)

theorem Pause_persists_error_and_target_witness:
  "pause_otherwise sample_pause = Some 4
   \<and> Pause_doBuild sample_pause = Inr (pause_body sample_pause 4)
   \<and> pause_body sample_pause 4 fresh_record 3 8
       = (None, fresh_record\<lparr>error := 21, reason := ''paused'', error_pos := Some 3,
                              current := 4\<rparr>, [])
   \<and> fst (execute (\<lambda>node. pause_body sample_pause 4) cb_ok one_span fresh_record 3 8) = 21"
proof -
  have h: "pause_otherwise sample_pause = Some 4" by (simp add: sample_pause_def)
  have e: "error fresh_record = 0" by (simp add: fresh_record_def)
  have c: "pause_code sample_pause = 21" "pause_reason sample_pause = ''paused''"
    by (simp_all add: sample_pause_def)
  from Pause_persists_error_and_target [OF h, of fresh_record 3 8 8 cb_ok one_span] h e
  show ?thesis unfolding c by simp
qed

text \<open>
  The claim as written fails: the code emitted for a Pause node sets the error fields of a
  record that had none set, the call of \<open>execute\<close> that reaches it returns the node's
  code, and the next call on the record returns that code again instead of resuming.
\<close>

theorem Pause_sets_error_counterexample:
  "Pause_doBuild sample_pause = Inr (pause_body sample_pause 4)
   \<and> error fresh_record = 0
   \<and> error (fst (snd (pause_body sample_pause 4 fresh_record 3 8))) = 21
   \<and> reason (fst (snd (pause_body sample_pause 4 fresh_record 3 8))) = ''paused''
   \<and> error_pos (fst (snd (pause_body sample_pause 4 fresh_record 3 8))) = Some 3
   \<and> fst (execute (\<lambda>node. pause_body sample_pause 4) cb_ok one_span fresh_record 3 8) = 21
   \<and> fst (execute_calls (\<lambda>node. pause_body sample_pause 4) cb_ok one_span fresh_record
            [(3, 8), (8, 9)]) = [21, 21]"
  by (simp add: Pause_doBuild_def pause_body_def storeError_def sample_pause_def fresh_record_def
      execute_def checkLingeringError_def one_span_def)

section \<open>The JavaScript backend: interning pools and the table dispatch\<close>

text \<open>
  \<open>js/compilation.ts\<close> keeps its pools in JavaScript \<open>Map\<close>s, which iterate in insertion
  order and hold each key once. A \<open>Map\<close> is modelled as an association list in insertion
  order; keys that are objects (\<open>Buffer\<close>, \<open>Code\<close>) are compared by identity, which the
  models of these objects carry as an explicit field.
\<close>

definition Map_has :: "('k \<times> 'v) list \<Rightarrow> 'k \<Rightarrow> bool" where
  "Map_has m k = (map_of m k \<noteq> None)"

definition Map_get :: "('k \<times> 'v) list \<Rightarrow> 'k \<Rightarrow> 'v option" where
  "Map_get m k = map_of m k"

fun Map_set :: "('k \<times> 'v) list \<Rightarrow> 'k \<Rightarrow> 'v \<Rightarrow> ('k \<times> 'v) list" where
  "Map_set [] k v = [(k, v)]"
| "Map_set ((k', v') # m) k v = (if k' = k then (k, v) # m else (k', v') # Map_set m k v)"

text \<open>A number appended to a string: its decimal digits.\<close>

fun show_nat :: "nat \<Rightarrow> string" where
  "show_nat n = (if n < 10 then [char_of (48 + n)]
                 else show_nat (n div 10) @ [char_of (48 + n mod 10)])"

declare show_nat.simps [simp del]





text \<open>
  A \<open>Buffer\<close> object: its identity and its bytes. A \<open>Code\<close> object: its identity, and the
  name and signature kind of the callback it wraps (\<open>code.ref\<close>).
\<close>

record buffer =
  buffer_id :: nat
  buffer_bytes :: "nat list"

datatype signature_kind = Match | Value | Span

record code_obj =
  code_id :: nat
  code_name :: string
  code_signature :: signature_kind

datatype match_sequence = MatchSequence string

record compilation =
  blobs :: "(buffer \<times> string) list"
  tables :: "(string \<times> nat list) list"
  codeMap :: "(string \<times> code_obj) list"
  matchSequence :: "(string \<times> match_sequence) list"

definition new_Compilation :: compilation where
  "new_Compilation = \<lparr>blobs = [], tables = [], codeMap = [], matchSequence = []\<rparr>"


text \<open>\<open>Compilation.table\<close>: no lookup, every call appends a table under a fresh name.\<close>

definition table :: "string \<Rightarrow> compilation \<Rightarrow> nat list \<Rightarrow> string \<times> compilation" where
  "table TABLE_PREFIX ctx v =
     (let name = TABLE_PREFIX @ show_nat (length (tables ctx))
      in (name, ctx\<lparr>tables := tables ctx @ [(name, v)]\<rparr>))"

text \<open>
  \<open>Compilation.buildCode\<close>: \<open>assert.strictEqual\<close> on two objects compares their identity.
\<close>

definition buildCode :: "compilation \<Rightarrow> code_obj \<Rightarrow> build_error + (string \<times> compilation)" where
  "buildCode ctx c =
     (if Map_has (codeMap ctx) (code_name c)
      then (if the (Map_get (codeMap ctx) (code_name c)) = c
            then Inr (''this._'' @ code_name c, ctx)
            else Inl AssertionError)
      else Inr (''this._'' @ code_name c,
                ctx\<lparr>codeMap := Map_set (codeMap ctx) (code_name c) c\<rparr>))"

text \<open>
  \<open>Compilation.buildMethods\<close>: the match sequences, then every value of \<open>codeMap\<close> in
  order, each followed by an empty line. What \<open>MatchSequence.build\<close> and \<open>Code.build\<close>
  push is not in the sources: the lines they add are parameters.
\<close>

definition buildMatchSequence :: "(match_sequence \<Rightarrow> string list) \<Rightarrow> compilation \<Rightarrow> string list
    \<Rightarrow> string list" where
  "buildMatchSequence build_ms ctx out =
     (if length (matchSequence ctx) = 0 then out
      else out @ concat (map (\<lambda>m. build_ms m @ [[]]) (map snd (matchSequence ctx))))"

definition buildMethods :: "(match_sequence \<Rightarrow> string list) \<Rightarrow> (code_obj \<Rightarrow> string list)
    \<Rightarrow> compilation \<Rightarrow> string list \<Rightarrow> string list" where
  "buildMethods build_ms build ctx out =
     buildMatchSequence build_ms ctx out
       @ concat (map (\<lambda>c. build c @ [[]]) (map snd (codeMap ctx)))"






subsection \<open>The table dispatch node\<close>

text \<open>
  \<open>js/node/table-lookup.ts\<close>. An edge of a \<open>frontend.node.TableLookup\<close> lists its keys
  in an array of numbers; \<open>otherwise\<close> and \<open>transform\<close> are optional in the type and
  dereferenced unchecked.
\<close>

definition MAX_CHAR :: nat where
  "MAX_CHAR = 0xff"

record table_edge =
  keys :: "nat list"
  node :: nat
  noAdvance :: bool

record edge_target =
  target_noAdvance :: bool
  target_node :: nat
  target_value :: "int option"

record table_lookup =
  edges :: "table_edge list"
  otherwise :: "edge_target option"
  transform :: "string option"

text \<open>
  The loops of \<open>buildTable\<close>. \<open>assign_keys\<close> is the \<open>forEach\<close> over one edge's keys:
  \<open>assert.strictEqual(table[key], 0)\<close> throws when the entry is nonzero, and also when
  \<open>key\<close> is outside the array (\<open>table[key]\<close> is then \<open>undefined\<close>); otherwise the entry
  becomes \<open>index + 1\<close>. A failure carries the table as it stood when the assertion threw.
\<close>

fun assign_keys :: "nat \<Rightarrow> nat list \<Rightarrow> nat list \<Rightarrow> (build_error \<times> nat list) + nat list" where
  "assign_keys idx [] tbl = Inr tbl"
| "assign_keys idx (key # ks) tbl =
     (if key < length tbl \<and> tbl ! key = 0
      then assign_keys idx ks (tbl[key := idx + 1])
      else Inl (AssertionError, tbl))"

fun fill_table :: "nat \<Rightarrow> table_edge list \<Rightarrow> nat list \<Rightarrow> (build_error \<times> nat list) + nat list" where
  "fill_table idx [] tbl = Inr tbl"
| "fill_table idx (edge # es) tbl =
     (case assign_keys idx (keys edge) tbl of
        Inl err \<Rightarrow> Inl err
      | Inr tbl' \<Rightarrow> fill_table (idx + 1) es tbl')"

definition buildTable :: "string \<Rightarrow> compilation \<Rightarrow> table_lookup
    \<Rightarrow> build_error + (string \<times> compilation)" where
  "buildTable TABLE_PREFIX ctx ref =
     (case fill_table 0 (edges ref) (replicate (MAX_CHAR + 1) 0) of
        Inl (err, tbl) \<Rightarrow> Inl err
      | Inr tbl \<Rightarrow> Inr (table TABLE_PREFIX ctx tbl))"

text \<open>
  The statement \<open>doBuild\<close> emits: a \<open>switch\<close> on the table entry of the (transformed)
  current byte, one \<open>case index + 1\<close> per edge in order and a \<open>default\<close>. The body of a
  case is what \<open>tailTo\<close> (not in the sources) emits for the target it is given; the model
  keeps the target. A \<open>switch\<close> runs the first case whose label equals the value, and
  the default when there is none.
\<close>

record switch_stmt =
  switch_table :: string
  switch_transform :: string
  switch_cases :: "(nat \<times> edge_target) list"
  switch_default :: edge_target

definition edge_case :: "nat \<times> table_edge \<Rightarrow> nat \<times> edge_target" where
  "edge_case ie = (case ie of (idx, edge) \<Rightarrow>
     (idx + 1, \<lparr>target_noAdvance = noAdvance edge, target_node = node edge, target_value = None\<rparr>))"

definition doBuild :: "string \<Rightarrow> compilation \<Rightarrow> table_lookup
    \<Rightarrow> build_error + (switch_stmt \<times> compilation)" where
  "doBuild TABLE_PREFIX ctx ref =
     (case buildTable TABLE_PREFIX ctx ref of
        Inl err \<Rightarrow> Inl err
      | Inr (tbl_name, ctx') \<Rightarrow>
          (case transform ref of
             None \<Rightarrow> Inl TypeError
           | Some tr \<Rightarrow>
               (case otherwise ref of
                  None \<Rightarrow> Inl TypeError
                | Some other \<Rightarrow>
                    Inr (\<lparr>switch_table = tbl_name, switch_transform = tr,
                          switch_cases = map edge_case (enumerate 0 (edges ref)),
                          switch_default = other\<rparr>, ctx'))))"

definition run_switch :: "switch_stmt \<Rightarrow> nat \<Rightarrow> edge_target" where
  "run_switch sw v = (case map_of (switch_cases sw) v of Some t \<Rightarrow> t | None \<Rightarrow> switch_default sw)"

text \<open>
  The reading of "the edges have pairwise-disjoint key sets": each edge's key array lists
  a set of byte values (no value twice, none above \<open>MAX_CHAR\<close>), and no value belongs to
  two edges.
\<close>

definition key_sets :: "table_edge list \<Rightarrow> bool" where
  "key_sets es \<longleftrightarrow> (\<forall>e \<in> set es. distinct (keys e) \<and> (\<forall>k \<in> set (keys e). k \<le> MAX_CHAR))"

definition pairwise_disjoint :: "table_edge list \<Rightarrow> bool" where
  "pairwise_disjoint es \<longleftrightarrow>
     (\<forall>i < length es. \<forall>j < length es. i \<noteq> j \<longrightarrow> set (keys (es ! i)) \<inter> set (keys (es ! j)) = {})"

definition outcome_table :: "(build_error \<times> nat list) + nat list \<Rightarrow> nat list" where
  "outcome_table r = (case r of Inl (err, tbl) \<Rightarrow> tbl | Inr tbl \<Rightarrow> tbl)"

text \<open>The table \<open>buildTable\<close> has in hand when its loops end or throw.\<close>

definition built_table :: "table_edge list \<Rightarrow> nat list" where
  "built_table es = outcome_table (fill_table 0 es (replicate (MAX_CHAR + 1) 0))"

definition lower_upper :: table_lookup where
  "lower_upper = \<lparr>edges = [\<lparr>keys = [97, 98], node = 1, noAdvance = False\<rparr>,
                            \<lparr>keys = [65], node = 2, noAdvance = True\<rparr>],
                   otherwise = Some \<lparr>target_noAdvance = True, target_node = 9, target_value = None\<rparr>,
                   transform = Some ''id''\<rparr>"

definition twice_claimed :: table_lookup where
  "twice_claimed = \<lparr>edges = [\<lparr>keys = [97, 98], node = 1, noAdvance = False\<rparr>,
                              \<lparr>keys = [65, 98], node = 2, noAdvance = False\<rparr>],
                     otherwise = Some \<lparr>target_noAdvance = True, target_node = 9, target_value = None\<rparr>,
                     transform = Some ''id''\<rparr>"

text \<open>
  The invariants of the callback pool and of the blob pool: a \<open>Map\<close> holds each key once;
  every callback is filed under its own name; the \<open>i\<close>-th blob inserted is named
  \<open>BLOB_PREFIX\<close> followed by \<open>i\<close>. A new \<open>Compilation\<close> satisfies both.
\<close>

definition codeMap_ok :: "compilation \<Rightarrow> bool" where
  "codeMap_ok ctx \<longleftrightarrow>
     distinct (map fst (codeMap ctx)) \<and> list_all (\<lambda>(n, c). code_name c = n) (codeMap ctx)"


definition sample_code :: code_obj where
  "sample_code = \<lparr>code_id = 1, code_name = ''on_url'', code_signature = Span\<rparr>"



section \<open>Generated names\<close>



lemma show_nat_0: "show_nat 0 = ''0''" and show_nat_1: "show_nat 1 = ''1''"
  and show_nat_2: "show_nat 2 = ''2''"
  by code_simp+

section \<open>Building the lookup table\<close>

lemma assign_keys_ok:
  "distinct ks \<Longrightarrow> \<forall>k \<in> set ks. k < length tbl \<and> tbl ! k = 0 \<Longrightarrow>
   \<exists>tbl'. assign_keys idx ks tbl = Inr tbl' \<and> length tbl' = length tbl
      \<and> (\<forall>k < length tbl. tbl' ! k = (if k \<in> set ks then idx + 1 else tbl ! k))"
proof (induction ks arbitrary: tbl)
  case Nil
  then show ?case by simp
next
  case (Cons key ks)
  let ?t = "tbl[key := idx + 1]"
  from Cons.prems have k: "key < length tbl" "tbl ! key = 0" "key \<notin> set ks" "distinct ks"
    by simp_all
  from Cons.prems have "\<forall>k \<in> set ks. k < length ?t \<and> ?t ! k = 0"
    by (auto simp: nth_list_update)
  from Cons.IH [OF k(4) this] obtain tbl' where
    r: "assign_keys idx ks ?t = Inr tbl'" and l: "length tbl' = length ?t"
    and v: "\<forall>k < length ?t. tbl' ! k = (if k \<in> set ks then idx + 1 else ?t ! k)"
    by blast
  from k r have "assign_keys idx (key # ks) tbl = Inr tbl'" by simp
  moreover from l have "length tbl' = length tbl" by simp
  moreover from v k have "\<forall>k < length tbl. tbl' ! k = (if k \<in> set (key # ks) then idx + 1 else tbl ! k)"
    by (auto simp: nth_list_update)
  ultimately show ?case by blast
qed

lemma assign_keys_InrD:
  "assign_keys idx ks tbl = Inr tbl' \<Longrightarrow>
     distinct ks \<and> (\<forall>k \<in> set ks. k < length tbl \<and> tbl ! k = 0)"
proof (induction ks arbitrary: tbl)
  case Nil
  then show ?case by simp
next
  case (Cons key ks)
  from Cons.prems have k: "key < length tbl" "tbl ! key = 0"
    and r: "assign_keys idx ks (tbl[key := idx + 1]) = Inr tbl'"
    by (auto split: if_splits)
  from Cons.IH [OF r] have d: "distinct ks"
    and z: "\<forall>k \<in> set ks. k < length tbl \<and> (tbl[key := idx + 1]) ! k = 0"
    by simp_all
  have ne: "k \<noteq> key" if "k \<in> set ks" for k
  proof
    assume "k = key"
    with that z have "(tbl[key := idx + 1]) ! key = 0" by blast
    with k show False by simp
  qed
  then have "key \<notin> set ks" by blast
  moreover have "\<forall>k \<in> set ks. k < length tbl \<and> tbl ! k = 0"
  proof
    fix k assume m: "k \<in> set ks"
    with z have "k < length tbl" and "(tbl[key := idx + 1]) ! k = 0" by simp_all
    with ne [OF m] show "k < length tbl \<and> tbl ! k = 0" by simp
  qed
  ultimately show ?case using d k by simp
qed

lemma assign_keys_outcome:
  "length (outcome_table (assign_keys idx ks tbl)) = length tbl
   \<and> (\<forall>k < length tbl. tbl ! k \<noteq> 0 \<longrightarrow> outcome_table (assign_keys idx ks tbl) ! k = tbl ! k)
   \<and> (\<forall>k < length tbl. tbl ! k = 0 \<longrightarrow> outcome_table (assign_keys idx ks tbl) ! k \<noteq> 0 \<longrightarrow>
        k \<in> set ks \<and> outcome_table (assign_keys idx ks tbl) ! k = idx + 1)"
proof (induction ks arbitrary: tbl)
  case Nil
  then show ?case by (simp add: outcome_table_def)
next
  case (Cons key ks)
  show ?case
  proof (cases "key < length tbl \<and> tbl ! key = 0")
    case False
    then show ?thesis by (auto simp: outcome_table_def)
  next
    case True
    then have e: "assign_keys idx (key # ks) tbl = assign_keys idx ks (tbl[key := idx + 1])"
      by simp
    from Cons.IH [of "tbl[key := idx + 1]"] True show ?thesis
      unfolding e by (auto simp: nth_list_update split: if_splits)
  qed
qed

lemma assign_keys_error: "assign_keys idx ks tbl = Inl (err, t) \<Longrightarrow> err = AssertionError"
  by (induction ks arbitrary: tbl) (auto split: if_splits)

lemma assign_keys_Inr_values:
  assumes "assign_keys idx ks tbl = Inr tbl'"
  shows "length tbl' = length tbl
     \<and> (\<forall>k < length tbl. tbl' ! k = (if k \<in> set ks then idx + 1 else tbl ! k))"
proof -
  from assign_keys_InrD [OF assms] have "distinct ks" "\<forall>k \<in> set ks. k < length tbl \<and> tbl ! k = 0"
    by simp_all
  from assign_keys_ok [OF this, of idx] assms show ?thesis by simp
qed

lemma fill_table_ok:
  "distinct (concat (map keys es)) \<Longrightarrow>
   \<forall>k \<in> set (concat (map keys es)). k < length tbl \<and> tbl ! k = 0 \<Longrightarrow>
   \<exists>tbl'. fill_table idx es tbl = Inr tbl' \<and> length tbl' = length tbl
      \<and> (\<forall>i < length es. \<forall>k \<in> set (keys (es ! i)). tbl' ! k = idx + i + 1)
      \<and> (\<forall>k < length tbl. k \<notin> set (concat (map keys es)) \<longrightarrow> tbl' ! k = tbl ! k)"
proof (induction es arbitrary: idx tbl)
  case Nil
  then show ?case by simp
next
  case (Cons e es)
  from Cons.prems(1) have d: "distinct (keys e)" "distinct (concat (map keys es))"
    and dj: "set (keys e) \<inter> set (concat (map keys es)) = {}"
    by simp_all
  from Cons.prems(2) have z: "\<forall>k \<in> set (keys e). k < length tbl \<and> tbl ! k = 0"
    and z': "\<forall>k \<in> set (concat (map keys es)). k < length tbl \<and> tbl ! k = 0"
    by simp_all
  from assign_keys_ok [OF d(1) z, of idx] obtain t1 where
    a: "assign_keys idx (keys e) tbl = Inr t1" and l1: "length t1 = length tbl"
    and v1: "\<forall>k < length tbl. t1 ! k = (if k \<in> set (keys e) then idx + 1 else tbl ! k)"
    by blast
  from z' v1 dj l1 have "\<forall>k \<in> set (concat (map keys es)). k < length t1 \<and> t1 ! k = 0"
    by auto
  from Cons.IH [OF d(2) this, of "idx + 1"] obtain t2 where
    f: "fill_table (idx + 1) es t1 = Inr t2" and l2: "length t2 = length t1"
    and v2: "\<forall>i < length es. \<forall>k \<in> set (keys (es ! i)). t2 ! k = idx + 1 + i + 1"
    and u2: "\<forall>k < length t1. k \<notin> set (concat (map keys es)) \<longrightarrow> t2 ! k = t1 ! k"
    by blast
  from a f have r: "fill_table idx (e # es) tbl = Inr t2" by simp
  have len: "length t2 = length tbl" using l1 l2 by simp
  have vals: "\<forall>i < length (e # es). \<forall>k \<in> set (keys ((e # es) ! i)). t2 ! k = idx + i + 1"
  proof (intro allI impI ballI)
    fix i k assume i: "i < length (e # es)" and k: "k \<in> set (keys ((e # es) ! i))"
    show "t2 ! k = idx + i + 1"
    proof (cases i)
      case 0
      with k have ke: "k \<in> set (keys e)" by simp
      with dj have "k \<notin> set (concat (map keys es))" by blast
      moreover from ke z l1 have "k < length t1" by simp
      ultimately have "t2 ! k = t1 ! k" using u2 by blast
      with ke z v1 0 show ?thesis by simp
    next
      case (Suc i')
      with i k v2 show ?thesis by simp
    qed
  qed
  have unch: "\<forall>k < length tbl. k \<notin> set (concat (map keys (e # es))) \<longrightarrow> t2 ! k = tbl ! k"
    using u2 v1 l1 by simp
  from r len vals unch show ?case by blast
qed

lemma fill_table_InrD:
  "fill_table idx es tbl = Inr tbl' \<Longrightarrow>
     distinct (concat (map keys es))
     \<and> (\<forall>k \<in> set (concat (map keys es)). k < length tbl \<and> tbl ! k = 0)"
proof (induction es arbitrary: idx tbl)
  case Nil
  then show ?case by simp
next
  case (Cons e es)
  from Cons.prems obtain t1 where a: "assign_keys idx (keys e) tbl = Inr t1"
    and f: "fill_table (idx + 1) es t1 = Inr tbl'"
    by (auto split: sum.splits)
  from assign_keys_InrD [OF a] have d1: "distinct (keys e)"
    and z1: "\<forall>k \<in> set (keys e). k < length tbl \<and> tbl ! k = 0"
    by simp_all
  from assign_keys_Inr_values [OF a] have l1: "length t1 = length tbl"
    and v1: "\<forall>k < length tbl. t1 ! k = (if k \<in> set (keys e) then idx + 1 else tbl ! k)"
    by simp_all
  from Cons.IH [OF f] have d2: "distinct (concat (map keys es))"
    and z2: "\<forall>k \<in> set (concat (map keys es)). k < length t1 \<and> t1 ! k = 0"
    by simp_all
  have dj: "set (keys e) \<inter> set (concat (map keys es)) = {}"
  proof (rule ccontr)
    assume "set (keys e) \<inter> set (concat (map keys es)) \<noteq> {}"
    then obtain k where k: "k \<in> set (keys e)" "k \<in> set (concat (map keys es))" by blast
    from k(2) z2 have "k < length t1 \<and> t1 ! k = 0" by blast
    with k(1) v1 l1 show False by auto
  qed
  have z: "\<forall>k \<in> set (concat (map keys es)). k < length tbl \<and> tbl ! k = 0"
  proof
    fix k assume k: "k \<in> set (concat (map keys es))"
    with z2 have "k < length t1 \<and> t1 ! k = 0" by blast
    with l1 have kl: "k < length tbl" and "t1 ! k = 0" by simp_all
    moreover from k dj have "k \<notin> set (keys e)" by blast
    ultimately show "k < length tbl \<and> tbl ! k = 0" using v1 by auto
  qed
  from d1 d2 dj z1 z show ?case by auto
qed

lemma fill_table_error: "fill_table idx es tbl = Inl (err, t) \<Longrightarrow> err = AssertionError"
  by (induction es arbitrary: idx tbl) (auto split: sum.splits dest: assign_keys_error)

lemma fill_table_outcome:
  "length (outcome_table (fill_table idx es tbl)) = length tbl
   \<and> (\<forall>k < length tbl. tbl ! k \<noteq> 0 \<longrightarrow> outcome_table (fill_table idx es tbl) ! k = tbl ! k)
   \<and> (\<forall>k < length tbl. tbl ! k = 0 \<longrightarrow> outcome_table (fill_table idx es tbl) ! k \<noteq> 0 \<longrightarrow>
        (\<exists>i < length es. k \<in> set (keys (es ! i)) \<and> (\<forall>j < i. k \<notin> set (keys (es ! j)))
           \<and> outcome_table (fill_table idx es tbl) ! k = idx + i + 1))"
proof (induction es arbitrary: idx tbl)
  case Nil
  then show ?case by (simp add: outcome_table_def)
next
  case (Cons e es)
  note ak = assign_keys_outcome [of idx "keys e" tbl]
  show ?case
  proof (cases "assign_keys idx (keys e) tbl")
    case (Inl err)
    then have o: "outcome_table (fill_table idx (e # es) tbl) = outcome_table (assign_keys idx (keys e) tbl)"
      by (simp add: outcome_table_def)
    have "\<exists>i < length (e # es). k \<in> set (keys ((e # es) ! i)) \<and> (\<forall>j < i. k \<notin> set (keys ((e # es) ! j)))
           \<and> outcome_table (assign_keys idx (keys e) tbl) ! k = idx + i + 1"
      if "k < length tbl" "tbl ! k = 0" "outcome_table (assign_keys idx (keys e) tbl) ! k \<noteq> 0" for k
    proof -
      from that ak have "k \<in> set (keys e)" "outcome_table (assign_keys idx (keys e) tbl) ! k = idx + 1"
        by blast+
      then show ?thesis by (intro exI [of _ 0]) simp
    qed
    with ak show ?thesis unfolding o by blast
  next
    case (Inr t1)
    then have o: "outcome_table (fill_table idx (e # es) tbl) = outcome_table (fill_table (idx + 1) es t1)"
      by simp
    from assign_keys_Inr_values [OF Inr] have l1: "length t1 = length tbl"
      and v1: "\<forall>k < length tbl. t1 ! k = (if k \<in> set (keys e) then idx + 1 else tbl ! k)"
      by simp_all
    note ih = Cons.IH [of "idx + 1" t1]
    let ?t = "outcome_table (fill_table (idx + 1) es t1)"
    from ih l1 have len: "length ?t = length tbl" by simp
    have keep: "?t ! k = tbl ! k" if "k < length tbl" "tbl ! k \<noteq> 0" for k
    proof -
      from that assign_keys_InrD [OF Inr] have "k \<notin> set (keys e)" by auto
      with that v1 have "t1 ! k = tbl ! k" by auto
      with that ih l1 show ?thesis by auto
    qed
    have first: "\<exists>i < length (e # es). k \<in> set (keys ((e # es) ! i))
           \<and> (\<forall>j < i. k \<notin> set (keys ((e # es) ! j))) \<and> ?t ! k = idx + i + 1"
      if k: "k < length tbl" "tbl ! k = 0" "?t ! k \<noteq> 0" for k
    proof (cases "k \<in> set (keys e)")
      case True
      with k v1 have "t1 ! k = idx + 1" by auto
      with k ih l1 have "?t ! k = idx + 1" by auto
      with True show ?thesis by (intro exI [of _ 0]) simp
    next
      case False
      with k v1 have "t1 ! k = 0" by auto
      with k ih l1 obtain i where i: "i < length es" "k \<in> set (keys (es ! i))"
        "\<forall>j < i. k \<notin> set (keys (es ! j))" "?t ! k = idx + 1 + i + 1"
        by auto
      have "\<forall>j < Suc i. k \<notin> set (keys ((e # es) ! j))"
      proof (intro allI impI)
        fix j assume "j < Suc i"
        with False i(3) show "k \<notin> set (keys ((e # es) ! j))" by (cases j) simp_all
      qed
      with i show ?thesis by (intro exI [of _ "Suc i"]) simp
    qed
    from len keep first show ?thesis unfolding o by blast
  qed
qed

lemma key_sets_distinct_concat:
  "key_sets es \<Longrightarrow> pairwise_disjoint es \<Longrightarrow> distinct (concat (map keys es))"
proof (induction es)
  case Nil
  then show ?case by simp
next
  case (Cons e es)
  from Cons.prems(1) have ks: "key_sets es" and d: "distinct (keys e)"
    by (simp_all add: key_sets_def)
  have pd: "pairwise_disjoint es"
    unfolding pairwise_disjoint_def
  proof (intro allI impI)
    fix i j assume "i < length es" "j < length es" "i \<noteq> j"
    with Cons.prems(2) [unfolded pairwise_disjoint_def, rule_format, of "Suc i" "Suc j"]
    show "set (keys (es ! i)) \<inter> set (keys (es ! j)) = {}" by simp
  qed
  have dj: "set (keys e) \<inter> set (keys x) = {}" if "x \<in> set es" for x
  proof -
    from that obtain j where j: "j < length es" "es ! j = x" by (auto simp: in_set_conv_nth)
    with Cons.prems(2) [unfolded pairwise_disjoint_def, rule_format, of 0 "Suc j"]
    show ?thesis by simp
  qed
  from Cons.IH [OF ks pd] d dj show ?case by auto
qed

lemma distinct_concat_disjoint:
  "distinct (concat (map keys es)) \<Longrightarrow> i < j \<Longrightarrow> j < length es \<Longrightarrow>
     set (keys (es ! i)) \<inter> set (keys (es ! j)) = {}"
proof (induction es arbitrary: i j)
  case Nil
  then show ?case by simp
next
  case (Cons e es)
  obtain j' where j: "j = Suc j'" using Cons.prems(2) by (cases j) auto
  show ?case
  proof (cases i)
    case 0
    from Cons.prems(3) j have "es ! j' \<in> set es" by simp
    with Cons.prems(1) 0 j show ?thesis by auto
  next
    case (Suc i')
    with Cons.IH [of i' j'] Cons.prems j show ?thesis by simp
  qed
qed

lemma map_of_edge_cases:
  "map_of (map edge_case (enumerate n es)) v =
     (if n + 1 \<le> v \<and> v \<le> n + length es then Some \<lparr>target_noAdvance = noAdvance (es ! (v - n - 1)), target_node = node (es ! (v - n - 1)), target_value = None\<rparr> else None)"
proof (induction es arbitrary: n)
  case Nil
  then show ?case by simp
next
  case (Cons e es)
  show ?case
  proof (cases "v = n + 1")
    case True
    then show ?thesis by (simp add: edge_case_def)
  next
    case False
    then have "map_of (map edge_case (enumerate n (e # es))) v
        = map_of (map edge_case (enumerate (Suc n) es)) v"
      by (simp add: edge_case_def)
    also have "\<dots> = (if Suc n + 1 \<le> v \<and> v \<le> Suc n + length es
                      then Some \<lparr>target_noAdvance = noAdvance (es ! (v - Suc n - 1)), target_node = node (es ! (v - Suc n - 1)), target_value = None\<rparr> else None)"
      by (rule Cons.IH)
    also have "\<dots> = (if n + 1 \<le> v \<and> v \<le> n + length (e # es)
                      then Some \<lparr>target_noAdvance = noAdvance ((e # es) ! (v - n - 1)), target_node = node ((e # es) ! (v - n - 1)), target_value = None\<rparr> else None)"
    proof (cases "Suc n + 1 \<le> v \<and> v \<le> Suc n + length es")
      case True
      then have "v - n - 1 = Suc (v - Suc n - 1)" by arith
      with True show ?thesis by simp
    next
      case False
      with \<open>v \<noteq> n + 1\<close> show ?thesis by auto
    qed
    finally show ?thesis .
  qed
qed

lemma fill_table_disjoint:
  assumes "key_sets es" and "pairwise_disjoint es"
  shows "fill_table 0 es (replicate (MAX_CHAR + 1) 0) = Inr (built_table es)
     \<and> length (built_table es) = MAX_CHAR + 1
     \<and> (\<forall>i < length es. \<forall>k \<in> set (keys (es ! i)). built_table es ! k = i + 1)
     \<and> (\<forall>k \<le> MAX_CHAR. k \<notin> set (concat (map keys es)) \<longrightarrow> built_table es ! k = 0)"
proof -
  from assms have d: "distinct (concat (map keys es))" by (rule key_sets_distinct_concat)
  from assms(1) have le: "\<forall>k \<in> set (concat (map keys es)). k \<le> MAX_CHAR"
    by (auto simp: key_sets_def)
  have z: "\<forall>k \<in> set (concat (map keys es)).
      k < length (replicate (MAX_CHAR + 1) (0::nat)) \<and> replicate (MAX_CHAR + 1) (0::nat) ! k = 0"
  proof
    fix k assume "k \<in> set (concat (map keys es))"
    with le have "k < MAX_CHAR + 1" by fastforce
    then show "k < length (replicate (MAX_CHAR + 1) (0::nat)) \<and> replicate (MAX_CHAR + 1) (0::nat) ! k = 0"
      by (simp del: replicate.simps)
  qed
  from fill_table_ok [OF d z, of 0] obtain tbl where
    r: "fill_table 0 es (replicate (MAX_CHAR + 1) 0) = Inr tbl"
    and l': "length tbl = length (replicate (MAX_CHAR + 1) (0::nat))"
    and v': "\<forall>i < length es. \<forall>k \<in> set (keys (es ! i)). tbl ! k = 0 + i + 1"
    and u': "\<forall>k < length (replicate (MAX_CHAR + 1) (0::nat)).
        k \<notin> set (concat (map keys es)) \<longrightarrow> tbl ! k = replicate (MAX_CHAR + 1) (0::nat) ! k"
    by blast
  from r have b: "built_table es = tbl" by (simp add: built_table_def outcome_table_def)
  from l' have l: "length tbl = MAX_CHAR + 1" by simp
  from v' have v: "\<forall>i < length es. \<forall>k \<in> set (keys (es ! i)). tbl ! k = i + 1" by simp
  have u: "\<forall>k \<le> MAX_CHAR. k \<notin> set (concat (map keys es)) \<longrightarrow> tbl ! k = 0"
  proof (intro allI impI)
    fix k assume k: "k \<le> MAX_CHAR" "k \<notin> set (concat (map keys es))"
    then have kl: "k < MAX_CHAR + 1" by simp
    with k(2) u' have "tbl ! k = replicate (MAX_CHAR + 1) (0::nat) ! k" by (simp del: replicate.simps)
    with kl show "tbl ! k = 0" by (simp del: replicate.simps)
  qed
  from r l v u show ?thesis unfolding b by blast
qed

lemma fill_table_overlap:
  assumes "i < j" and "j < length es" and "k \<in> set (keys (es ! i))" and "k \<in> set (keys (es ! j))"
  shows "fill_table idx es tbl = Inl (AssertionError, outcome_table (fill_table idx es tbl))"
proof (cases "fill_table idx es tbl")
  case (Inl a)
  obtain err t where a: "a = (err, t)" by (cases a)
  with Inl fill_table_error have "err = AssertionError" by blast
  with Inl a show ?thesis by (simp add: outcome_table_def)
next
  case (Inr t)
  from fill_table_InrD [OF Inr] have "distinct (concat (map keys es))" by simp
  from distinct_concat_disjoint [OF this assms(1,2)] assms(3,4) show ?thesis by blast
qed

lemma doBuild_switch:
  assumes "buildTable P ctx ref = Inr (name, ctx')" and "transform ref = Some tr"
    and "otherwise ref = Some other"
  shows "\<exists>sw. doBuild P ctx ref = Inr (sw, ctx') \<and> switch_table sw = name
     \<and> switch_transform sw = tr
     \<and> (\<forall>v. run_switch sw v =
            (if 1 \<le> v \<and> v \<le> length (edges ref)
             then \<lparr>target_noAdvance = noAdvance (edges ref ! (v - 1)),
                   target_node = node (edges ref ! (v - 1)), target_value = None\<rparr>
             else other))"
  using assms by (simp add: doBuild_def run_switch_def map_of_edge_cases)

text \<open>
  C7. For a Table Dispatch node whose edges have pairwise-disjoint key sets, \<open>buildTable\<close>
  succeeds and registers a table of exactly 256 entries; the entry of every byte in edge
  \<open>i\<close>'s key set is \<open>i + 1\<close> and the entry of every byte that belongs to no edge is 0. The
  \<open>switch\<close> that \<open>doBuild\<close> emits on the table entry goes, for the value \<open>i + 1\<close>, to the
  node of edge \<open>i\<close> with that edge's no-advance flag and no value, and for 0 to the
  otherwise edge; so a byte in edge \<open>i\<close>'s key set reaches edge \<open>i\<close>'s node and a byte
  in no key set reaches the otherwise edge.
\<close>

theorem TableLookup_dense_table:
  assumes "key_sets (edges ref)" and "pairwise_disjoint (edges ref)"
  shows "buildTable P ctx ref = Inr (table P ctx (built_table (edges ref)))
   \<and> tables (snd (table P ctx (built_table (edges ref))))
       = tables ctx @ [(fst (table P ctx (built_table (edges ref))), built_table (edges ref))]
   \<and> length (built_table (edges ref)) = 256
   \<and> (\<forall>i < length (edges ref). \<forall>k \<in> set (keys (edges ref ! i)).
          built_table (edges ref) ! k = i + 1)
   \<and> (\<forall>k < 256. (\<forall>e \<in> set (edges ref). k \<notin> set (keys e)) \<longrightarrow> built_table (edges ref) ! k = 0)
   \<and> (\<forall>tr other. transform ref = Some tr \<and> otherwise ref = Some other \<longrightarrow>
        (\<exists>sw. doBuild P ctx ref = Inr (sw, snd (table P ctx (built_table (edges ref))))
           \<and> switch_table sw = fst (table P ctx (built_table (edges ref)))
           \<and> switch_transform sw = tr
           \<and> (\<forall>i < length (edges ref).
                 target_node (run_switch sw (i + 1)) = node (edges ref ! i)
                 \<and> target_noAdvance (run_switch sw (i + 1)) = noAdvance (edges ref ! i)
                 \<and> target_value (run_switch sw (i + 1)) = None)
           \<and> run_switch sw 0 = other
           \<and> (\<forall>i < length (edges ref). \<forall>k \<in> set (keys (edges ref ! i)).
                 target_node (run_switch sw (built_table (edges ref) ! k)) = node (edges ref ! i)
                 \<and> target_noAdvance (run_switch sw (built_table (edges ref) ! k))
                     = noAdvance (edges ref ! i))
           \<and> (\<forall>k < 256. (\<forall>e \<in> set (edges ref). k \<notin> set (keys e)) \<longrightarrow>
                 run_switch sw (built_table (edges ref) ! k) = other)))"
proof -
  note f = fill_table_disjoint [OF assms]
  from f have b: "buildTable P ctx ref = Inr (table P ctx (built_table (edges ref)))"
    by (simp add: buildTable_def)
  have t: "tables (snd (table P ctx (built_table (edges ref))))
       = tables ctx @ [(fst (table P ctx (built_table (edges ref))), built_table (edges ref))]"
    by (simp add: table_def Let_def)
  from f have l: "length (built_table (edges ref)) = 256" by (simp add: MAX_CHAR_def)
  from f have v: "\<forall>i < length (edges ref). \<forall>k \<in> set (keys (edges ref ! i)).
          built_table (edges ref) ! k = i + 1"
    by blast
  have u: "\<forall>k < 256. (\<forall>e \<in> set (edges ref). k \<notin> set (keys e)) \<longrightarrow> built_table (edges ref) ! k = 0"
  proof (intro allI impI)
    fix k :: nat assume "k < 256" and n: "\<forall>e \<in> set (edges ref). k \<notin> set (keys e)"
    then have "k \<le> MAX_CHAR" by (simp add: MAX_CHAR_def)
    moreover from n have "k \<notin> set (concat (map keys (edges ref)))" by simp
    ultimately show "built_table (edges ref) ! k = 0" using f by blast
  qed
  have d: "\<exists>sw. doBuild P ctx ref = Inr (sw, snd (table P ctx (built_table (edges ref))))
           \<and> switch_table sw = fst (table P ctx (built_table (edges ref)))
           \<and> switch_transform sw = tr
           \<and> (\<forall>i < length (edges ref).
                 target_node (run_switch sw (i + 1)) = node (edges ref ! i)
                 \<and> target_noAdvance (run_switch sw (i + 1)) = noAdvance (edges ref ! i)
                 \<and> target_value (run_switch sw (i + 1)) = None)
           \<and> run_switch sw 0 = other
           \<and> (\<forall>i < length (edges ref). \<forall>k \<in> set (keys (edges ref ! i)).
                 target_node (run_switch sw (built_table (edges ref) ! k)) = node (edges ref ! i)
                 \<and> target_noAdvance (run_switch sw (built_table (edges ref) ! k))
                     = noAdvance (edges ref ! i))
           \<and> (\<forall>k < 256. (\<forall>e \<in> set (edges ref). k \<notin> set (keys e)) \<longrightarrow>
                 run_switch sw (built_table (edges ref) ! k) = other)"
    if h: "transform ref = Some tr \<and> otherwise ref = Some other" for tr other
  proof -
    from b have "buildTable P ctx ref = Inr (fst (table P ctx (built_table (edges ref))),
        snd (table P ctx (built_table (edges ref))))"
      by simp
    from doBuild_switch [OF this] h obtain sw where
      db: "doBuild P ctx ref = Inr (sw, snd (table P ctx (built_table (edges ref))))"
      and st: "switch_table sw = fst (table P ctx (built_table (edges ref)))"
      and tr: "switch_transform sw = tr"
      and rs: "\<forall>v. run_switch sw v =
            (if 1 \<le> v \<and> v \<le> length (edges ref)
             then \<lparr>target_noAdvance = noAdvance (edges ref ! (v - 1)),
                   target_node = node (edges ref ! (v - 1)), target_value = None\<rparr>
             else other)"
      by blast
    from rs have c1: "\<forall>i < length (edges ref).
                 target_node (run_switch sw (i + 1)) = node (edges ref ! i)
                 \<and> target_noAdvance (run_switch sw (i + 1)) = noAdvance (edges ref ! i)
                 \<and> target_value (run_switch sw (i + 1)) = None"
      by simp
    from rs have c0: "run_switch sw 0 = other" by simp
    have c2: "\<forall>i < length (edges ref). \<forall>k \<in> set (keys (edges ref ! i)).
                 target_node (run_switch sw (built_table (edges ref) ! k)) = node (edges ref ! i)
                 \<and> target_noAdvance (run_switch sw (built_table (edges ref) ! k))
                     = noAdvance (edges ref ! i)"
    proof (intro allI impI ballI)
      fix i k assume i: "i < length (edges ref)" and k: "k \<in> set (keys (edges ref ! i))"
      with v have "built_table (edges ref) ! k = i + 1" by blast
      with c1 i show "target_node (run_switch sw (built_table (edges ref) ! k)) = node (edges ref ! i)
                 \<and> target_noAdvance (run_switch sw (built_table (edges ref) ! k))
                     = noAdvance (edges ref ! i)"
        by simp
    qed
    have c3: "\<forall>k < 256. (\<forall>e \<in> set (edges ref). k \<notin> set (keys e)) \<longrightarrow>
                 run_switch sw (built_table (edges ref) ! k) = other"
    proof (intro allI impI)
      fix k :: nat assume "k < 256" "\<forall>e \<in> set (edges ref). k \<notin> set (keys e)"
      with u have "built_table (edges ref) ! k = 0" by blast
      with c0 show "run_switch sw (built_table (edges ref) ! k) = other" by simp
    qed
    from db st tr c1 c0 c2 c3 show ?thesis by blast
  qed
  from b t l v u d show ?thesis by blast
qed

lemma lower_upper_ok: "key_sets (edges lower_upper) \<and> pairwise_disjoint (edges lower_upper)"
  by (simp add: lower_upper_def key_sets_def pairwise_disjoint_def MAX_CHAR_def less_Suc_eq)

definition lower_upper_switch :: switch_stmt where
  "lower_upper_switch =
     \<lparr>switch_table = ''llparse_table0'', switch_transform = ''id'',
      switch_cases = [(1, \<lparr>target_noAdvance = False, target_node = 1, target_value = None\<rparr>),
                      (2, \<lparr>target_noAdvance = True, target_node = 2, target_value = None\<rparr>)],
      switch_default = \<lparr>target_noAdvance = True, target_node = 9, target_value = None\<rparr>\<rparr>"

theorem TableLookup_dense_table_witness:
  "key_sets (edges lower_upper) \<and> pairwise_disjoint (edges lower_upper)
   \<and> buildTable ''llparse_table'' new_Compilation lower_upper
       = Inr (''llparse_table0'',
              new_Compilation\<lparr>tables := [(''llparse_table0'', built_table (edges lower_upper))]\<rparr>)
   \<and> length (built_table (edges lower_upper)) = 256
   \<and> built_table (edges lower_upper) ! 97 = 1
   \<and> built_table (edges lower_upper) ! 98 = 1
   \<and> built_table (edges lower_upper) ! 65 = 2
   \<and> built_table (edges lower_upper) ! 66 = 0
   \<and> doBuild ''llparse_table'' new_Compilation lower_upper
       = Inr (lower_upper_switch,
              new_Compilation\<lparr>tables := [(''llparse_table0'', built_table (edges lower_upper))]\<rparr>)
   \<and> target_node (run_switch lower_upper_switch 1) = 1
   \<and> target_node (run_switch lower_upper_switch 2) = 2
   \<and> target_noAdvance (run_switch lower_upper_switch 2) = True
   \<and> target_node (run_switch lower_upper_switch 0) = 9
   \<and> target_node (run_switch lower_upper_switch (built_table (edges lower_upper) ! 97)) = 1
   \<and> target_node (run_switch lower_upper_switch (built_table (edges lower_upper) ! 65)) = 2
   \<and> target_node (run_switch lower_upper_switch (built_table (edges lower_upper) ! 66)) = 9"
proof -
  from lower_upper_ok have h: "key_sets (edges lower_upper)" "pairwise_disjoint (edges lower_upper)"
    by simp_all
  note t = TableLookup_dense_table [OF h, of "''llparse_table''" new_Compilation]
  have e: "edges lower_upper ! 0 = \<lparr>keys = [97, 98], node = 1, noAdvance = False\<rparr>"
    "edges lower_upper ! 1 = \<lparr>keys = [65], node = 2, noAdvance = True\<rparr>"
    "length (edges lower_upper) = 2"
    by (simp_all add: lower_upper_def)
  have tn: "table ''llparse_table'' new_Compilation (built_table (edges lower_upper))
      = (''llparse_table0'',
         new_Compilation\<lparr>tables := [(''llparse_table0'', built_table (edges lower_upper))]\<rparr>)"
    by (simp add: table_def new_Compilation_def Let_def show_nat_0)
  from t have b: "buildTable ''llparse_table'' new_Compilation lower_upper
       = Inr (''llparse_table0'',
              new_Compilation\<lparr>tables := [(''llparse_table0'', built_table (edges lower_upper))]\<rparr>)"
    unfolding tn by blast
  from t have l: "length (built_table (edges lower_upper)) = 256" by blast
  from t have v: "\<forall>i < length (edges lower_upper). \<forall>k \<in> set (keys (edges lower_upper ! i)).
          built_table (edges lower_upper) ! k = i + 1"
    by blast
  from v [rule_format, of 0 97] e have a: "built_table (edges lower_upper) ! 97 = 1" by simp
  from v [rule_format, of 0 98] e have a': "built_table (edges lower_upper) ! 98 = 1" by simp
  from v [rule_format, of 1 65] e have c: "built_table (edges lower_upper) ! 65 = 2" by simp
  from t have u: "\<forall>k < 256. (\<forall>e \<in> set (edges lower_upper). k \<notin> set (keys e))
      \<longrightarrow> built_table (edges lower_upper) ! k = 0"
    by blast
  have n66: "\<forall>e \<in> set (edges lower_upper). 66 \<notin> set (keys e)"
    by (simp add: lower_upper_def)
  with u have d: "built_table (edges lower_upper) ! 66 = 0"
    by simp
  have db: "doBuild ''llparse_table'' new_Compilation lower_upper
       = Inr (lower_upper_switch,
              new_Compilation\<lparr>tables := [(''llparse_table0'', built_table (edges lower_upper))]\<rparr>)"
    unfolding doBuild_def b by (simp add: lower_upper_def lower_upper_switch_def edge_case_def)
  have tro: "transform lower_upper = Some ''id'' \<and> otherwise lower_upper
      = Some \<lparr>target_noAdvance = True, target_node = 9, target_value = None\<rparr>"
    by (simp add: lower_upper_def)
  from t tro obtain sw where
    sw: "doBuild ''llparse_table'' new_Compilation lower_upper
           = Inr (sw, snd (table ''llparse_table'' new_Compilation (built_table (edges lower_upper))))"
    and r1: "\<forall>i < length (edges lower_upper).
                 target_node (run_switch sw (i + 1)) = node (edges lower_upper ! i)
                 \<and> target_noAdvance (run_switch sw (i + 1)) = noAdvance (edges lower_upper ! i)
                 \<and> target_value (run_switch sw (i + 1)) = None"
    and r0: "run_switch sw 0 = \<lparr>target_noAdvance = True, target_node = 9, target_value = None\<rparr>"
    and rk: "\<forall>i < length (edges lower_upper). \<forall>k \<in> set (keys (edges lower_upper ! i)).
                 target_node (run_switch sw (built_table (edges lower_upper) ! k))
                   = node (edges lower_upper ! i)
                 \<and> target_noAdvance (run_switch sw (built_table (edges lower_upper) ! k))
                     = noAdvance (edges lower_upper ! i)"
    and ro: "\<forall>k < 256. (\<forall>e \<in> set (edges lower_upper). k \<notin> set (keys e)) \<longrightarrow>
                 run_switch sw (built_table (edges lower_upper) ! k)
                   = \<lparr>target_noAdvance = True, target_node = 9, target_value = None\<rparr>"
    by blast
  from sw db have s: "sw = lower_upper_switch" by simp
  from r1 [rule_format, of 0] e have g1: "target_node (run_switch lower_upper_switch 1) = 1"
    unfolding s by simp
  from r1 [rule_format, of 1] e have g2: "target_node (run_switch lower_upper_switch 2) = 2"
    and g2': "target_noAdvance (run_switch lower_upper_switch 2) = True"
    unfolding s by (simp_all add: numeral_2_eq_2)
  from r0 have g0: "target_node (run_switch lower_upper_switch 0) = 9"
    unfolding s by simp
  from rk [rule_format, of 0 97] e
  have k97: "target_node (run_switch lower_upper_switch (built_table (edges lower_upper) ! 97)) = 1"
    unfolding s by simp
  from rk [rule_format, of 1 65] e
  have k65: "target_node (run_switch lower_upper_switch (built_table (edges lower_upper) ! 65)) = 2"
    unfolding s by simp
  from ro [rule_format, of 66] n66
  have k66: "target_node (run_switch lower_upper_switch (built_table (edges lower_upper) ! 66)) = 9"
    unfolding s by simp
  from h b l a a' c d db g1 g2 g2' g0 k97 k65 k66 show ?thesis by blast
qed

text \<open>
  C8. When some byte value is in the key sets of two edges, \<open>buildTable\<close> fails with an
  assertion error and so does \<open>doBuild\<close>. Whatever the edges, every nonzero entry of
  the table, as it stands when the loops end or throw, is the one its first claimant
  wrote: no entry has been overwritten. When the key sets are pairwise disjoint the
  assertion never fails and the table is registered.
\<close>

theorem buildTable_duplicate_key_fails:
  "(i < j \<and> j < length (edges ref) \<and> k \<in> set (keys (edges ref ! i)) \<and> k \<in> set (keys (edges ref ! j))
      \<longrightarrow> fill_table 0 (edges ref) (replicate (MAX_CHAR + 1) 0)
            = Inl (AssertionError, built_table (edges ref))
          \<and> buildTable P ctx ref = Inl AssertionError
          \<and> doBuild P ctx ref = Inl AssertionError)
   \<and> (\<forall>k' < 256. built_table (edges ref) ! k' \<noteq> 0 \<longrightarrow>
         (\<exists>i' < length (edges ref). k' \<in> set (keys (edges ref ! i'))
             \<and> (\<forall>j' < i'. k' \<notin> set (keys (edges ref ! j')))
             \<and> built_table (edges ref) ! k' = i' + 1))
   \<and> (key_sets (edges ref) \<and> pairwise_disjoint (edges ref)
      \<longrightarrow> fill_table 0 (edges ref) (replicate (MAX_CHAR + 1) 0) = Inr (built_table (edges ref))
          \<and> buildTable P ctx ref = Inr (table P ctx (built_table (edges ref))))"
proof -
  have a: "fill_table 0 (edges ref) (replicate (MAX_CHAR + 1) 0)
            = Inl (AssertionError, built_table (edges ref))
          \<and> buildTable P ctx ref = Inl AssertionError
          \<and> doBuild P ctx ref = Inl AssertionError"
    if h: "i < j \<and> j < length (edges ref) \<and> k \<in> set (keys (edges ref ! i))
        \<and> k \<in> set (keys (edges ref ! j))"
  proof -
    from h have "fill_table 0 (edges ref) (replicate (MAX_CHAR + 1) 0)
            = Inl (AssertionError, built_table (edges ref))"
      unfolding built_table_def by (intro fill_table_overlap [of i j _ k]) simp_all
    then show ?thesis by (simp add: buildTable_def doBuild_def)
  qed
  have b: "\<forall>k' < 256. built_table (edges ref) ! k' \<noteq> 0 \<longrightarrow>
         (\<exists>i' < length (edges ref). k' \<in> set (keys (edges ref ! i'))
             \<and> (\<forall>j' < i'. k' \<notin> set (keys (edges ref ! j')))
             \<and> built_table (edges ref) ! k' = i' + 1)"
  proof (intro allI impI)
    fix k' :: nat assume k: "k' < 256" "built_table (edges ref) ! k' \<noteq> 0"
    let ?z = "replicate (MAX_CHAR + 1) (0::nat)"
    from k(1) have kl: "k' < length ?z" and kz: "?z ! k' = 0"
      by (simp_all add: MAX_CHAR_def del: replicate.simps)
    from fill_table_outcome [of 0 "edges ref" ?z] kl kz k(2)
    show "\<exists>i' < length (edges ref). k' \<in> set (keys (edges ref ! i'))
             \<and> (\<forall>j' < i'. k' \<notin> set (keys (edges ref ! j')))
             \<and> built_table (edges ref) ! k' = i' + 1"
      unfolding built_table_def by (simp del: replicate.simps)
  qed
  have c: "fill_table 0 (edges ref) (replicate (MAX_CHAR + 1) 0) = Inr (built_table (edges ref))
          \<and> buildTable P ctx ref = Inr (table P ctx (built_table (edges ref)))"
    if "key_sets (edges ref) \<and> pairwise_disjoint (edges ref)"
    using that fill_table_disjoint [of "edges ref"] by (simp add: buildTable_def)
  from a b c show ?thesis by blast
qed

theorem buildTable_duplicate_key_fails_witness:
  "buildTable ''llparse_table'' new_Compilation twice_claimed = Inl AssertionError
   \<and> doBuild ''llparse_table'' new_Compilation twice_claimed = Inl AssertionError
   \<and> buildTable ''llparse_table'' new_Compilation lower_upper
       = Inr (table ''llparse_table'' new_Compilation (built_table (edges lower_upper)))"
proof -
  have h: "0 < (1::nat) \<and> 1 < length (edges twice_claimed)
      \<and> 98 \<in> set (keys (edges twice_claimed ! 0)) \<and> 98 \<in> set (keys (edges twice_claimed ! 1))"
    by (simp add: twice_claimed_def)
  from buildTable_duplicate_key_fails [of 0 1 twice_claimed 98 "''llparse_table''" new_Compilation] h
  have a: "buildTable ''llparse_table'' new_Compilation twice_claimed = Inl AssertionError
   \<and> doBuild ''llparse_table'' new_Compilation twice_claimed = Inl AssertionError"
    by blast
  from buildTable_duplicate_key_fails [of 0 1 lower_upper 98 "''llparse_table''" new_Compilation]
    lower_upper_ok
  have b: "buildTable ''llparse_table'' new_Compilation lower_upper
       = Inr (table ''llparse_table'' new_Compilation (built_table (edges lower_upper)))"
    by blast
  from a b show ?thesis by blast
qed

section \<open>The callback pool\<close>

lemma Map_set_absent: "map_of m k = None \<Longrightarrow> Map_set m k v = m @ [(k, v)]"
  by (induction m) (auto split: if_splits)

lemma map_of_append_absent: "map_of m k = None \<Longrightarrow> map_of (m @ [(k, v)]) k = Some v"
  by (induction m) (auto split: if_splits)

lemma buildCode_cases:
  "buildCode ctx c = Inr (r, ctx') \<Longrightarrow>
     r = ''this._'' @ code_name c \<and> map_of (codeMap ctx') (code_name c) = Some c
     \<and> (codeMap ctx' = codeMap ctx \<or>
         (map_of (codeMap ctx) (code_name c) = None
          \<and> codeMap ctx' = codeMap ctx @ [(code_name c, c)]))"
proof (cases "map_of (codeMap ctx) (code_name c)")
  case None
  assume b: "buildCode ctx c = Inr (r, ctx')"
  from None have s: "Map_set (codeMap ctx) (code_name c) c = codeMap ctx @ [(code_name c, c)]"
    by (rule Map_set_absent)
  from b None have "r = ''this._'' @ code_name c"
    and "ctx' = ctx\<lparr>codeMap := codeMap ctx @ [(code_name c, c)]\<rparr>"
    unfolding buildCode_def Map_has_def s by simp_all
  with None map_of_append_absent [OF None, of c] show ?thesis by simp
next
  case (Some c0)
  assume b: "buildCode ctx c = Inr (r, ctx')"
  with Some show ?thesis
    by (simp add: buildCode_def Map_has_def Map_get_def split: if_splits)
qed

lemma one_code_per_name:
  "distinct (map fst m) \<Longrightarrow> list_all (\<lambda>(n, c). code_name c = n) m \<Longrightarrow> map_of m k = Some c \<Longrightarrow>
     filter (\<lambda>c'. code_name c' = k) (map snd m) = [c]"
proof (induction m)
  case Nil
  then show ?case by simp
next
  case (Cons p m)
  obtain n c0 where p: "p = (n, c0)" by (cases p)
  show ?case
  proof (cases "n = k")
    case True
    from Cons.prems(3) p True have c1: "c0 = c" by simp
    from Cons.prems(2) p True have c2: "code_name c0 = k" by simp
    from Cons.prems(1) p True have nk: "k \<notin> fst ` set m" by simp
    note c = c1 c2
    have "filter (\<lambda>c'. code_name c' = k) (map snd m) = []"
    proof (rule ccontr)
      assume "filter (\<lambda>c'. code_name c' = k) (map snd m) \<noteq> []"
      then obtain c' where "c' \<in> set (map snd m)" "code_name c' = k"
        unfolding filter_empty_conv by blast
      then obtain n' where "(n', c') \<in> set m" by auto
      with Cons.prems(2) \<open>code_name c' = k\<close> have "(k, c') \<in> set m"
        by (auto simp: list_all_iff)
      with nk show False by force
    qed
    with c p show ?thesis by simp
  next
    case False
    from Cons.prems(2) p False have "code_name c0 \<noteq> k" by simp
    moreover from Cons.prems(3) p False have "map_of m k = Some c" by simp
    moreover from Cons.prems(1) have "distinct (map fst m)" by simp
    moreover from Cons.prems(2) have "list_all (\<lambda>(n, c). code_name c = n) m" by simp
    ultimately show ?thesis using Cons.IH p by simp
  qed
qed

lemma buildCode_keeps_ok:
  assumes "buildCode ctx c = Inr (r, ctx')" and "codeMap_ok ctx"
  shows "codeMap_ok ctx'"
proof -
  from buildCode_cases [OF assms(1)] have "codeMap ctx' = codeMap ctx
      \<or> (map_of (codeMap ctx) (code_name c) = None \<and> codeMap ctx' = codeMap ctx @ [(code_name c, c)])"
    by simp
  then show ?thesis
  proof (elim disjE conjE)
    assume "codeMap ctx' = codeMap ctx"
    with assms(2) show ?thesis by (simp add: codeMap_ok_def)
  next
    assume n: "map_of (codeMap ctx) (code_name c) = None"
      and a: "codeMap ctx' = codeMap ctx @ [(code_name c, c)]"
    from n have "code_name c \<notin> fst ` set (codeMap ctx)" by (simp add: map_of_eq_None_iff)
    with a assms(2) show ?thesis by (simp add: codeMap_ok_def)
  qed
qed

text \<open>
  C9. When \<open>buildCode\<close> succeeds for a callback object, it returns the reference string
  built from the callback's name, and a repeated call with the same object returns the
  same string and changes nothing; a call with a different object that carries the same
  name (whatever its signature kind) fails with an assertion error. The pool keeps its
  invariant, under which exactly one of the callbacks that \<open>buildMethods\<close> emits, the
  values of \<open>codeMap\<close> in order, has that name: the object itself.
\<close>

theorem buildCode_interned_by_name:
  assumes "buildCode ctx c = Inr (r, ctx')"
  shows "r = ''this._'' @ code_name c
   \<and> buildCode ctx' c = Inr (r, ctx')
   \<and> (\<forall>c'. c' \<noteq> c \<and> code_name c' = code_name c \<longrightarrow> buildCode ctx' c' = Inl AssertionError)
   \<and> (codeMap_ok ctx \<longrightarrow>
        codeMap_ok ctx'
        \<and> filter (\<lambda>c'. code_name c' = code_name c) (map snd (codeMap ctx')) = [c]
        \<and> buildMethods build_ms build ctx' out
            = buildMatchSequence build_ms ctx' out
              @ concat (map (\<lambda>c'. build c' @ [[]]) (map snd (codeMap ctx'))))"
proof -
  from buildCode_cases [OF assms] have r: "r = ''this._'' @ code_name c"
    and m: "map_of (codeMap ctx') (code_name c) = Some c"
    by simp_all
  from r m have again: "buildCode ctx' c = Inr (r, ctx')"
    by (simp add: buildCode_def Map_has_def Map_get_def)
  from m have other: "\<forall>c'. c' \<noteq> c \<and> code_name c' = code_name c \<longrightarrow> buildCode ctx' c' = Inl AssertionError"
    by (auto simp: buildCode_def Map_has_def Map_get_def)
  have once: "codeMap_ok ctx'
        \<and> filter (\<lambda>c'. code_name c' = code_name c) (map snd (codeMap ctx')) = [c]
        \<and> buildMethods build_ms build ctx' out
            = buildMatchSequence build_ms ctx' out
              @ concat (map (\<lambda>c'. build c' @ [[]]) (map snd (codeMap ctx')))"
    if ok: "codeMap_ok ctx"
  proof -
    from buildCode_keeps_ok [OF assms ok] have ok': "codeMap_ok ctx'" .
    then have "filter (\<lambda>c'. code_name c' = code_name c) (map snd (codeMap ctx')) = [c]"
      using m by (intro one_code_per_name) (simp_all add: codeMap_ok_def)
    with ok' show ?thesis by (simp add: buildMethods_def)
  qed
  from r again other once show ?thesis by blast
qed

theorem buildCode_interned_by_name_witness:
  "buildCode new_Compilation sample_code
     = Inr (''this._on_url'', new_Compilation\<lparr>codeMap := [(''on_url'', sample_code)]\<rparr>)
   \<and> buildCode (new_Compilation\<lparr>codeMap := [(''on_url'', sample_code)]\<rparr>) sample_code
     = Inr (''this._on_url'', new_Compilation\<lparr>codeMap := [(''on_url'', sample_code)]\<rparr>)
   \<and> buildCode (new_Compilation\<lparr>codeMap := [(''on_url'', sample_code)]\<rparr>)
        (sample_code\<lparr>code_id := 2, code_signature := Match\<rparr>) = Inl AssertionError
   \<and> buildCode (new_Compilation\<lparr>codeMap := [(''on_url'', sample_code)]\<rparr>)
        (sample_code\<lparr>code_id := 2\<rparr>) = Inl AssertionError
   \<and> codeMap_ok new_Compilation"
proof -
  have b: "buildCode new_Compilation sample_code
     = Inr (''this._on_url'', new_Compilation\<lparr>codeMap := [(''on_url'', sample_code)]\<rparr>)"
    by (simp add: buildCode_def new_Compilation_def Map_has_def sample_code_def)
  note t = buildCode_interned_by_name [OF b]
  have ok: "codeMap_ok new_Compilation" by (simp add: codeMap_ok_def new_Compilation_def)
  have d1: "sample_code\<lparr>code_id := 2, code_signature := Match\<rparr> \<noteq> sample_code
      \<and> code_name (sample_code\<lparr>code_id := 2, code_signature := Match\<rparr>) = code_name sample_code"
    by (simp add: sample_code_def)
  have d2: "sample_code\<lparr>code_id := 2\<rparr> \<noteq> sample_code
      \<and> code_name (sample_code\<lparr>code_id := 2\<rparr>) = code_name sample_code"
    by (simp add: sample_code_def)
  from t have again: "buildCode (new_Compilation\<lparr>codeMap := [(''on_url'', sample_code)]\<rparr>) sample_code
     = Inr (''this._on_url'', new_Compilation\<lparr>codeMap := [(''on_url'', sample_code)]\<rparr>)"
    by blast
  from t d1 have f1: "buildCode (new_Compilation\<lparr>codeMap := [(''on_url'', sample_code)]\<rparr>)
        (sample_code\<lparr>code_id := 2, code_signature := Match\<rparr>) = Inl AssertionError"
    by blast
  from t d2 have f2: "buildCode (new_Compilation\<lparr>codeMap := [(''on_url'', sample_code)]\<rparr>)
        (sample_code\<lparr>code_id := 2\<rparr>) = Inl AssertionError"
    by blast
  from b again f1 f2 ok show ?thesis by blast
qed

section \<open>The blob pool\<close>













end
